theory Spec2Isabelle
  imports Main "HOL-Library.List_Lexorder"
begin

section \<open>Python strings\<close>

text \<open>
  A Python string is a sequence of Unicode code points; a code point is a natural number,
  and the strings are ordered as Python orders them, lexicographically by code point.
  \<open>lit\<close> turns a literal of this text into such a string.
\<close>

type_synonym cp = nat
type_synonym ustring = "cp list"

definition ch :: "char \<Rightarrow> cp" where
  "ch c = of_char c"

definition lit :: "string \<Rightarrow> ustring" where
  "lit s = map ch s"

text \<open>
  The character classes and conversions of Python (\<^verbatim>\<open>str.isspace\<close>, which is also the
  class \<^verbatim>\<open>\s\<close> and what \<^verbatim>\<open>str.strip\<close> removes; the class \<^verbatim>\<open>\w\<close>; \<^verbatim>\<open>str.isdigit\<close>;
  \<^verbatim>\<open>str.upper\<close>; \<^verbatim>\<open>str.lower\<close>; \<^verbatim>\<open>int\<close>) are fixed by the language on the code points
  below 128 and read from the Unicode character database of the interpreter above them.
  The database is not part of the programs: it is the parameter \<open>X\<close> of everything
  below. \<open>x_space\<close>, \<open>x_word\<close> and \<open>x_digit\<close> say which code points from 128 on are
  white space, word characters and digits; \<open>x_upper\<close> and \<open>x_lower\<close> are the case
  conversions of a string that is not pure ASCII (the upper case of a sharp s has two characters, and
  \<^verbatim>\<open>lower\<close> looks at the context of a sigma); \<open>x_int\<close> is \<^verbatim>\<open>int(s)\<close> for a string that is
  not a run of at most 4300 ASCII digits, with \<open>None\<close> for \<^verbatim>\<open>ValueError\<close>: \<^verbatim>\<open>int\<close> reads
  the decimal digits of every script, refuses the other characters that \<^verbatim>\<open>isdigit\<close>
  accepts (the superscript digits), and refuses a string of more digits than the limit
  of the interpreter, 4300 unless it is configured otherwise.
\<close>

record unicode =
  x_space :: "cp \<Rightarrow> bool"
  x_word :: "cp \<Rightarrow> bool"
  x_digit :: "cp \<Rightarrow> bool"
  x_upper :: "ustring \<Rightarrow> ustring"
  x_lower :: "ustring \<Rightarrow> ustring"
  x_int :: "ustring \<Rightarrow> nat option"

definition is_space :: "unicode \<Rightarrow> cp \<Rightarrow> bool" where
  "is_space X c =
     (if c < 128 then (9 \<le> c \<and> c \<le> 13) \<or> (28 \<le> c \<and> c \<le> 32) else x_space X c)"

definition is_digit :: "unicode \<Rightarrow> cp \<Rightarrow> bool" where
  "is_digit X c = (if c < 128 then 48 \<le> c \<and> c \<le> 57 else x_digit X c)"

definition is_word :: "unicode \<Rightarrow> cp \<Rightarrow> bool" where
  "is_word X c =
     (if c < 128 then (48 \<le> c \<and> c \<le> 57) \<or> (65 \<le> c \<and> c \<le> 90) \<or> c = 95 \<or> (97 \<le> c \<and> c \<le> 122)
      else x_word X c)"

definition upper_char :: "cp \<Rightarrow> cp" where
  "upper_char c = (if 97 \<le> c \<and> c \<le> 122 then c - 32 else c)"

definition lower_char :: "cp \<Rightarrow> cp" where
  "lower_char c = (if 65 \<le> c \<and> c \<le> 90 then c + 32 else c)"

definition is_ascii :: "ustring \<Rightarrow> bool" where
  "is_ascii s = list_all (\<lambda>c. c < 128) s"

definition upper :: "unicode \<Rightarrow> ustring \<Rightarrow> ustring" where
  "upper X s = (if is_ascii s then map upper_char s else x_upper X s)"

definition lower :: "unicode \<Rightarrow> ustring \<Rightarrow> ustring" where
  "lower X s = (if is_ascii s then map lower_char s else x_lower X s)"

definition strip :: "unicode \<Rightarrow> ustring \<Rightarrow> ustring" where
  "strip X s = rev (dropWhile (is_space X) (rev (dropWhile (is_space X) s)))"

text \<open>\<^verbatim>\<open>s.isdigit()\<close>: non-empty and all digits.\<close>

definition isdigit :: "unicode \<Rightarrow> ustring \<Rightarrow> bool" where
  "isdigit X s = (s \<noteq> [] \<and> list_all (is_digit X) s)"

text \<open>\<^verbatim>\<open>int(s)\<close>; \<open>None\<close> is \<^verbatim>\<open>ValueError\<close>.\<close>

definition ascii_digits :: "ustring \<Rightarrow> bool" where
  "ascii_digits s = (s \<noteq> [] \<and> list_all (\<lambda>c. 48 \<le> c \<and> c \<le> 57) s)"

definition decimal :: "ustring \<Rightarrow> nat" where
  "decimal s = foldl (\<lambda>n c. 10 * n + (c - 48)) 0 s"

definition py_int :: "unicode \<Rightarrow> ustring \<Rightarrow> nat option" where
  "py_int X s = (if ascii_digits s \<and> length s \<le> 4300 then Some (decimal s) else x_int X s)"

text \<open>\<^verbatim>\<open>str(n)\<close> of a non-negative integer, as used by the f-strings.\<close>

function str_nat :: "nat \<Rightarrow> ustring" where
  "str_nat n = (if n < 10 then [48 + n] else str_nat (n div 10) @ [48 + n mod 10])"
  by pat_completeness auto
termination
  by (relation "measure id") auto

declare str_nat.simps [simp del]

text \<open>\<^verbatim>\<open>sep.join(xs)\<close> on a list of strings.\<close>

fun join :: "ustring \<Rightarrow> ustring list \<Rightarrow> ustring" where
  "join sep [] = []"
| "join sep [x] = x"
| "join sep (x # y # ys) = x @ sep @ join sep (y # ys)"

text \<open>\<^verbatim>\<open>s.split(d)\<close> for a one-character separator: every occurrence splits.\<close>

fun split_on :: "cp \<Rightarrow> ustring \<Rightarrow> ustring \<Rightarrow> ustring list" where
  "split_on d cur [] = [cur]"
| "split_on d cur (c # cs) =
     (if c = d then cur # split_on d [] cs else split_on d (cur @ [c]) cs)"

text \<open>
  \<^verbatim>\<open>re.split(r"[,\|;/\s]+", s)\<close>: the pieces between the maximal runs of delimiter
  characters, with an empty piece before a leading run and after a trailing one.
\<close>

definition is_delim :: "unicode \<Rightarrow> cp \<Rightarrow> bool" where
  "is_delim X c = (c = ch CHR '','' \<or> c = ch CHR ''|'' \<or> c = ch CHR '';'' \<or> c = ch CHR ''/''
     \<or> is_space X c)"

fun re_split :: "unicode \<Rightarrow> bool \<Rightarrow> ustring \<Rightarrow> ustring \<Rightarrow> ustring list" where
  "re_split X in_run cur [] = [cur]"
| "re_split X in_run cur (c # cs) =
     (if is_delim X c then (if in_run then re_split X True cur cs else cur # re_split X True [] cs)
      else re_split X False (cur @ [c]) cs)"

section \<open>Tag normalisation\<close>

text \<open>
  \<^verbatim>\<open>tokens_from\<close> of \<^verbatim>\<open>phase0_generate_reports.py\<close>. The argument is a cell of a
  row: a string, or \<^verbatim>\<open>None\<close>. The result is a Python set.
\<close>

definition tokens_list :: "unicode \<Rightarrow> ustring \<Rightarrow> ustring list" where
  "tokens_list X s =
     map (\<lambda>t. upper X (strip X t)) (filter (\<lambda>t. strip X t \<noteq> []) (re_split X False [] s))"

definition tokens_from :: "unicode \<Rightarrow> ustring option \<Rightarrow> ustring set" where
  "tokens_from X val =
     (case val of None \<Rightarrow> {}
      | Some s \<Rightarrow> if s = [] then {} else set (tokens_list X s))"

text \<open>\<^verbatim>\<open>norm_tags\<close> of \<^verbatim>\<open>Fixes/engine/engine_cli.py\<close>.\<close>

definition norm_tags_list :: "unicode \<Rightarrow> ustring \<Rightarrow> ustring list" where
  "norm_tags_list X s =
     filter (\<lambda>t. t \<noteq> [])
       (map (\<lambda>t. filter (\<lambda>c. c \<noteq> ch CHR '' '') (upper X (strip X t)))
          (split_on (ch CHR '','') [] (map (\<lambda>c. if c = ch CHR '';'' then ch CHR '','' else c) s)))"

definition norm_tags :: "unicode \<Rightarrow> ustring option \<Rightarrow> ustring set" where
  "norm_tags X val =
     (case val of None \<Rightarrow> {}
      | Some s \<Rightarrow> if s = [] then {} else set (norm_tags_list X s))"

section \<open>Requirement codes and the requirement matcher\<close>

text \<open>\<^verbatim>\<open>REQS\<close>, the same list in both programs.\<close>

definition LETTERS :: "ustring list" where
  "LETTERS = map (\<lambda>c. [c]) (lit ''ABCDEFG'')"

definition REQS :: "ustring list" where
  "REQS = map (\<lambda>i. lit ''CR'' @ str_nat i) [1..<11] @ LETTERS"

definition ID_CANDS :: "ustring list" where
  "ID_CANDS = map lit [''id'', ''question_id'', ''qid'', ''key'', ''ref'']"

definition TXT_CANDS :: "ustring list" where
  "TXT_CANDS = map lit [''text'', ''question'', ''prompt'', ''body'', ''label'']"

definition TAG_CANDS :: "ustring list" where
  "TAG_CANDS = map lit [''tags'', ''tag'', ''controls'', ''control'', ''categories'', ''category'',
     ''cr'', ''mapping'']"

datatype py_error = KeyError | AttributeError | ValueError | TypeError | PdfError

text \<open>
  \<^verbatim>\<open>norm_cr\<close>: the substitution \<^verbatim>\<open>re.sub(r"[\s_-]+", "", tok)\<close> deletes every white space,
  underscore and hyphen. The result is \<^verbatim>\<open>None\<close> or the canonical code, unless \<^verbatim>\<open>int\<close>
  raises on a string that \<^verbatim>\<open>isdigit\<close> has accepted.
\<close>

definition is_sep :: "unicode \<Rightarrow> cp \<Rightarrow> bool" where
  "is_sep X c = (is_space X c \<or> c = ch CHR ''_'' \<or> c = ch CHR ''-'')"

definition norm_cr :: "unicode \<Rightarrow> ustring \<Rightarrow> py_error + ustring option" where
  "norm_cr X tok =
     (let t = upper X (filter (\<lambda>c. \<not> is_sep X c) tok) in
      if take 2 t = lit ''CR'' then
        (let n = drop 2 t in
         if isdigit X n then
           (case py_int X n of
              None \<Rightarrow> Inl ValueError
            | Some k \<Rightarrow> if 1 \<le> k \<and> k \<le> 10 then Inr (Some (lit ''CR'' @ str_nat k)) else Inr None)
         else Inr None)
      else Inr None)"

text \<open>
  \<^verbatim>\<open>CR_RX = re.compile(r"\bCR[-_ ]?0?([1-9]|10)\b", re.I)\<close>.
  \<open>at_boundary X s i\<close> is \<^verbatim>\<open>\b\<close> at position \<open>i\<close>: exactly one of the characters before
  and after the position is a word character (there is none outside the string).
  \<open>cr_match_at X s i\<close> is the match that starts at position \<open>i\<close>, if there is one: the
  position after it and the number in group 1. Ignoring case, the letters of the pattern
  match \<open>C\<close>, \<open>c\<close>, \<open>R\<close> and \<open>r\<close> only. The optional separator and the optional
  zero are taken when present (giving one back never leads to a match, since the group
  starts with a digit from 1 to 9), and the first alternative of the group is tried first.
\<close>

definition at_boundary :: "unicode \<Rightarrow> ustring \<Rightarrow> nat \<Rightarrow> bool" where
  "at_boundary X s i =
     ((0 < i \<and> i \<le> length s \<and> is_word X (s ! (i - 1))) \<noteq> (i < length s \<and> is_word X (s ! i)))"

definition char_at :: "ustring \<Rightarrow> nat \<Rightarrow> ustring \<Rightarrow> bool" where
  "char_at s i cs = (i < length s \<and> s ! i \<in> set cs)"

definition cr_match_at :: "unicode \<Rightarrow> ustring \<Rightarrow> nat \<Rightarrow> (nat \<times> nat) option" where
  "cr_match_at X s i =
     (if at_boundary X s i \<and> char_at s i (lit ''Cc'') \<and> char_at s (i + 1) (lit ''Rr'') then
        (let p = i + 2;
             p1 = (if char_at s p (lit ''-_ '') then p + 1 else p);
             p2 = (if char_at s p1 (lit ''0'') then p1 + 1 else p1)
         in if char_at s p2 (lit ''123456789'') \<and> at_boundary X s (p2 + 1)
            then Some (p2 + 1, s ! p2 - 48)
            else if char_at s p2 (lit ''1'') \<and> char_at s (p2 + 1) (lit ''0'')
                    \<and> at_boundary X s (p2 + 2)
            then Some (p2 + 2, 10)
            else None)
      else None)"

text \<open>
  \<^verbatim>\<open>CR_RX.finditer(txt)\<close>, as the list of the numbers \<^verbatim>\<open>int(m.group(1))\<close>: the scan
  tries every position from the left and goes on after the end of a match. The fuel is
  the number of positions left.
\<close>

fun cr_scan :: "unicode \<Rightarrow> nat \<Rightarrow> ustring \<Rightarrow> nat \<Rightarrow> nat list" where
  "cr_scan X 0 s i = []"
| "cr_scan X (Suc fuel) s i =
     (case cr_match_at X s i of
        Some (e, k) \<Rightarrow> k # cr_scan X (fuel - (e - i - 1)) s e
      | None \<Rightarrow> cr_scan X fuel s (i + 1))"

definition cr_finditer :: "unicode \<Rightarrow> ustring \<Rightarrow> nat list" where
  "cr_finditer X s = cr_scan X (length s) s 0"

section \<open>Rows and the coverage aggregator of phase 0\<close>

text \<open>
  A row is a dictionary as \<^verbatim>\<open>csv.DictReader\<close> yields it: the column names in the order
  of the header, each with its cell, and \<^verbatim>\<open>None\<close> for a cell that the line does not have;
  the cells that a line has beyond the header are kept as a list under the key \<^verbatim>\<open>None\<close>,
  the last key of the dictionary. \<open>extra\<close> is that list, empty when there is no such key.
\<close>

record row =
  cells :: "(ustring \<times> ustring option) list"
  extra :: "ustring list"

text \<open>The keys of a row, in their order.\<close>

definition keys :: "row \<Rightarrow> ustring option list" where
  "keys row = map (\<lambda>(k, v). Some k) (cells row) @ (if extra row = [] then [] else [None])"

text \<open>
  An id of a record: the cell of the identifier column, a positional id, or, when the
  row is read at the key \<^verbatim>\<open>None\<close>, the list of the cells beyond the header.
\<close>

datatype qid = Str ustring | Lst "ustring list"

text \<open>\<^verbatim>\<open>row.get(k)\<close>, where \<open>k\<close> itself may be \<^verbatim>\<open>None\<close>, and \<^verbatim>\<open>row.get(k, "")\<close>.\<close>

definition row_get :: "row \<Rightarrow> ustring option \<Rightarrow> qid option" where
  "row_get row k =
     (case k of
        None \<Rightarrow> if extra row = [] then None else Some (Lst (extra row))
      | Some f \<Rightarrow> (case map_of (cells row) f of None \<Rightarrow> None | Some v \<Rightarrow> map_option Str v))"

definition row_get_default :: "row \<Rightarrow> ustring \<Rightarrow> ustring option" where
  "row_get_default row f = (case map_of (cells row) f of None \<Rightarrow> Some [] | Some v \<Rightarrow> v)"

text \<open>\<^verbatim>\<open>str(v)\<close> of a cell.\<close>

definition py_str :: "ustring option \<Rightarrow> ustring" where
  "py_str v = (case v of None \<Rightarrow> lit ''None'' | Some s \<Rightarrow> s)"

type_synonym cov = "ustring \<rightharpoonup> qid list"

text \<open>\<^verbatim>\<open>if qid not in cov[cr]: cov[cr].append(qid)\<close>; a missing key raises.\<close>

definition cov_add :: "qid \<Rightarrow> ustring \<Rightarrow> cov \<Rightarrow> py_error + cov" where
  "cov_add q cr cov =
     (case cov cr of None \<Rightarrow> Inl KeyError
      | Some qs \<Rightarrow> Inr (if q \<in> set qs then cov else cov(cr \<mapsto> qs @ [q])))"

text \<open>A \<^verbatim>\<open>for\<close> loop over a list whose body may raise.\<close>

fun for_each :: "('a \<Rightarrow> 's \<Rightarrow> py_error + 's) \<Rightarrow> 'a list \<Rightarrow> 's \<Rightarrow> py_error + 's" where
  "for_each f [] s = Inr s"
| "for_each f (x # xs) s = (case f x s of Inl e \<Rightarrow> Inl e | Inr s' \<Rightarrow> for_each f xs s')"

definition and_then :: "py_error + 'a \<Rightarrow> ('a \<Rightarrow> py_error + 'b) \<Rightarrow> py_error + 'b" where
  "and_then r f = (case r of Inl e \<Rightarrow> Inl e | Inr x \<Rightarrow> f x)"

text \<open>
  \<^verbatim>\<open>row.get(id_field) or f"row{idx}"\<close>: \<^verbatim>\<open>None\<close>, the empty string and the empty list
  are false.
\<close>

definition row_qid :: "ustring option \<Rightarrow> nat \<Rightarrow> row \<Rightarrow> qid" where
  "row_qid id_field idx row =
     (case row_get row id_field of
        None \<Rightarrow> Str (lit ''row'' @ str_nat idx)
      | Some v \<Rightarrow> if v = Str [] \<or> v = Lst [] then Str (lit ''row'' @ str_nat idx) else v)"

definition row_tags :: "unicode \<Rightarrow> ustring list \<Rightarrow> row \<Rightarrow> ustring set" where
  "row_tags X tag_fields row = (\<Union>tf \<in> set tag_fields. tokens_from X (row_get_default row tf))"

text \<open>The text of a row, when there is a text column with a name that is not empty.\<close>

definition row_text :: "ustring option \<Rightarrow> row \<Rightarrow> ustring option" where
  "row_text txt_field row =
     (case txt_field of None \<Rightarrow> None
      | Some f \<Rightarrow> if f = [] then None else Some (py_str (row_get_default row f)))"

definition tag_step :: "unicode \<Rightarrow> qid \<Rightarrow> ustring \<Rightarrow> cov \<Rightarrow> py_error + cov" where
  "tag_step X q t cov =
     (case norm_cr X t of
        Inl e \<Rightarrow> Inl e
      | Inr None \<Rightarrow> Inr cov
      | Inr (Some cr) \<Rightarrow> cov_add q cr cov)"

definition letter_step :: "qid \<Rightarrow> ustring set \<Rightarrow> ustring \<Rightarrow> cov \<Rightarrow> py_error + cov" where
  "letter_step q tags letter cov = (if letter \<in> tags then cov_add q letter cov else Inr cov)"

definition text_step :: "qid \<Rightarrow> nat \<Rightarrow> cov \<Rightarrow> py_error + cov" where
  "text_step q k cov = cov_add q (lit ''CR'' @ str_nat k) cov"

text \<open>
  The body of the loop over the rows. \<open>ord\<close> is the order in which \<^verbatim>\<open>list(tags)\<close>
  enumerates the set \<open>tags\<close>; Python does not fix it.
\<close>

definition process_row ::
  "unicode \<Rightarrow> (ustring set \<Rightarrow> ustring list) \<Rightarrow> ustring option \<Rightarrow> ustring option \<Rightarrow> ustring list \<Rightarrow>
   nat \<Rightarrow> row \<Rightarrow> cov \<Rightarrow> py_error + cov" where
  "process_row X ord id_field txt_field tag_fields idx row cov =
     (let q = row_qid id_field idx row;
          tags = row_tags X tag_fields row
      in and_then (for_each (tag_step X q) (ord tags) cov) (\<lambda>cov1.
         and_then (for_each (letter_step q tags) LETTERS cov1) (\<lambda>cov2.
         case row_text txt_field row of
           None \<Rightarrow> Inr cov2
         | Some tx \<Rightarrow> for_each (text_step q) (cr_finditer X tx) cov2)))"

fun rows_loop ::
  "unicode \<Rightarrow> (ustring set \<Rightarrow> ustring list) \<Rightarrow> ustring option \<Rightarrow> ustring option \<Rightarrow> ustring list \<Rightarrow>
   nat \<Rightarrow> row list \<Rightarrow> cov \<Rightarrow> py_error + cov" where
  "rows_loop X ord id_field txt_field tag_fields idx [] cov = Inr cov"
| "rows_loop X ord id_field txt_field tag_fields idx (row # rs) cov =
     (case process_row X ord id_field txt_field tag_fields idx row cov of
        Inl e \<Rightarrow> Inl e
      | Inr cov' \<Rightarrow> rows_loop X ord id_field txt_field tag_fields (Suc idx) rs cov')"

definition empty_cov :: cov where
  "empty_cov = map_of (map (\<lambda>req. (req, [])) REQS)"

text \<open>
  The discovery of the columns among the keys of the first row. \<^verbatim>\<open>c.lower()\<close> raises on
  the key \<^verbatim>\<open>None\<close>; the generator under \<^verbatim>\<open>next\<close> stops at the first hit, the list
  comprehension reads every key.
\<close>

fun first_col :: "(ustring \<Rightarrow> bool) \<Rightarrow> ustring option list \<Rightarrow> py_error + ustring option" where
  "first_col P [] = Inr None"
| "first_col P (None # cs) = Inl AttributeError"
| "first_col P (Some c # cs) = (if P c then Inr (Some c) else first_col P cs)"

fun all_cols :: "(ustring \<Rightarrow> bool) \<Rightarrow> ustring option list \<Rightarrow> py_error + ustring list" where
  "all_cols P [] = Inr []"
| "all_cols P (None # cs) = Inl AttributeError"
| "all_cols P (Some c # cs) =
     (case all_cols P cs of Inl e \<Rightarrow> Inl e | Inr l \<Rightarrow> Inr (if P c then c # l else l))"

definition id_field_of :: "unicode \<Rightarrow> row list \<Rightarrow> py_error + ustring option" where
  "id_field_of X rs = first_col (\<lambda>c. lower X c \<in> set ID_CANDS) (keys (hd rs))"

definition txt_field_of :: "unicode \<Rightarrow> row list \<Rightarrow> py_error + ustring option" where
  "txt_field_of X rs = first_col (\<lambda>c. lower X c \<in> set TXT_CANDS) (keys (hd rs))"

definition tag_fields_of :: "unicode \<Rightarrow> row list \<Rightarrow> py_error + ustring list" where
  "tag_fields_of X rs = all_cols (\<lambda>c. lower X c \<in> set TAG_CANDS) (keys (hd rs))"

definition coverage_from_rows_ord ::
  "unicode \<Rightarrow> (ustring set \<Rightarrow> ustring list) \<Rightarrow> row list \<Rightarrow> py_error + cov" where
  "coverage_from_rows_ord X ord rs =
     (if rs = [] then Inr empty_cov
      else and_then (id_field_of X rs) (\<lambda>id_field.
           and_then (txt_field_of X rs) (\<lambda>txt_field.
           and_then (tag_fields_of X rs) (\<lambda>tag_fields.
             rows_loop X ord id_field txt_field tag_fields 1 rs empty_cov))))"

text \<open>The program with one enumeration order fixed, the sorted one.\<close>

definition coverage_from_rows :: "unicode \<Rightarrow> row list \<Rightarrow> py_error + cov" where
  "coverage_from_rows X rs = coverage_from_rows_ord X sorted_list_of_set rs"

text \<open>
  The columns of a table whose first row has no cell beyond the header: the discovery
  without its error path.
\<close>

definition id_col :: "unicode \<Rightarrow> row list \<Rightarrow> ustring option" where
  "id_col X rs = find (\<lambda>c. lower X c \<in> set ID_CANDS) (map fst (cells (hd rs)))"

definition txt_col :: "unicode \<Rightarrow> row list \<Rightarrow> ustring option" where
  "txt_col X rs = find (\<lambda>c. lower X c \<in> set TXT_CANDS) (map fst (cells (hd rs)))"

definition tag_cols :: "unicode \<Rightarrow> row list \<Rightarrow> ustring list" where
  "tag_cols X rs = filter (\<lambda>c. lower X c \<in> set TAG_CANDS) (map fst (cells (hd rs)))"

text \<open>
  The codes that a row matches, by the three paths of the loop body: a tag that
  \<open>norm_cr\<close> maps to the code, a tag that is one of the letters, a match of the
  regular expression in the text column. A row is bad when \<open>norm_cr\<close> raises on one of
  its tags.
\<close>

definition cr_of_tag :: "unicode \<Rightarrow> ustring \<Rightarrow> ustring set" where
  "cr_of_tag X t = (case norm_cr X t of Inr (Some c) \<Rightarrow> {c} | _ \<Rightarrow> {})"

definition row_hits :: "unicode \<Rightarrow> ustring option \<Rightarrow> ustring list \<Rightarrow> row \<Rightarrow> ustring set" where
  "row_hits X txt_field tag_fields row =
     (\<Union>t \<in> row_tags X tag_fields row. cr_of_tag X t)
     \<union> (set LETTERS \<inter> row_tags X tag_fields row)
     \<union> (case row_text txt_field row of None \<Rightarrow> {}
        | Some tx \<Rightarrow> (\<lambda>k. lit ''CR'' @ str_nat k) ` set (cr_finditer X tx))"

definition bad_row :: "unicode \<Rightarrow> ustring list \<Rightarrow> row \<Rightarrow> bool" where
  "bad_row X tag_fields row = (\<exists>t \<in> row_tags X tag_fields row. norm_cr X t = Inl ValueError)"

text \<open>Appending an id that is new, and doing so under every code of a set.\<close>

definition add_new :: "qid \<Rightarrow> qid list \<Rightarrow> qid list" where
  "add_new q qs = (if q \<in> set qs then qs else qs @ [q])"

definition mark :: "qid \<Rightarrow> ustring set \<Rightarrow> cov \<Rightarrow> cov" where
  "mark q C cov = (\<lambda>r. if r \<in> C then map_option (add_new q) (cov r) else cov r)"

text \<open>
  The ids of the rows that match a code, in the order of the input: the rows are
  numbered from 1, as \<^verbatim>\<open>enumerate(rows, start=1)\<close> does. \<open>first_seen\<close> keeps every id
  at its first place.
\<close>

definition matching_ids :: "unicode \<Rightarrow> row list \<Rightarrow> ustring \<Rightarrow> qid list" where
  "matching_ids X rs r =
     map (\<lambda>(i, row). row_qid (id_col X rs) i row)
       (filter (\<lambda>(i, row). r \<in> row_hits X (txt_col X rs) (tag_cols X rs) row)
          (enumerate 1 rs))"

definition first_seen :: "'a list \<Rightarrow> 'a list" where
  "first_seen xs = rev (remdups (rev xs))"

text \<open>
  The exception with which \<^verbatim>\<open>coverage_from_rows\<close> ends, if it does: the discovery of the
  columns raises when the first row has cells beyond the header, and the loop raises at
  the first bad row.
\<close>

definition coverage_error :: "unicode \<Rightarrow> row list \<Rightarrow> py_error option" where
  "coverage_error X rs =
     (if rs \<noteq> [] \<and> extra (hd rs) \<noteq> [] then Some AttributeError
      else if list_ex (bad_row X (tag_cols X rs)) rs then Some ValueError
      else None)"

section \<open>Reports and the main program of phase 0\<close>

record cov_row =
  Requirement :: ustring
  Covered :: ustring
  Count :: nat
  QuestionIDs :: ustring

record cov_row_gap = cov_row +
  ProposedAddIfGap :: ustring

text \<open>\<^verbatim>\<open>";".join(ids)\<close> raises \<^verbatim>\<open>TypeError\<close> on an id that is not a string.\<close>

fun strings_of :: "qid list \<Rightarrow> py_error + ustring list" where
  "strings_of [] = Inr []"
| "strings_of (Str s # qs) = (case strings_of qs of Inl e \<Rightarrow> Inl e | Inr l \<Rightarrow> Inr (s # l))"
| "strings_of (Lst l # qs) = Inl TypeError"

text \<open>A loop that builds a list and whose body may raise.\<close>

fun collect :: "('a \<Rightarrow> py_error + 'b) \<Rightarrow> 'a list \<Rightarrow> py_error + 'b list" where
  "collect f [] = Inr []"
| "collect f (x # xs) =
     (case f x of Inl e \<Rightarrow> Inl e
      | Inr y \<Rightarrow> (case collect f xs of Inl e \<Rightarrow> Inl e | Inr ys \<Rightarrow> Inr (y # ys)))"

text \<open>
  \<^verbatim>\<open>write_coverage\<close>: the rows handed to the CSV writer. The rows are built before the
  file is opened. \<open>cov_get\<close> is \<^verbatim>\<open>cov.get(req, [])\<close>.
\<close>

definition cov_get :: "cov \<Rightarrow> ustring \<Rightarrow> qid list" where
  "cov_get cov req = (case cov req of None \<Rightarrow> [] | Some l \<Rightarrow> l)"

definition coverage_line :: "cov \<Rightarrow> ustring \<Rightarrow> py_error + cov_row_gap" where
  "coverage_line cov req =
     (let qs = cov_get cov req in
      case strings_of qs of
        Inl e \<Rightarrow> Inl e
      | Inr l \<Rightarrow> Inr \<lparr>Requirement = req,
                        Covered = (if qs \<noteq> [] then lit ''Y'' else lit ''N''),
                        Count = length qs,
                        QuestionIDs = join (lit '';'') l,
                        ProposedAddIfGap =
                          (if qs \<noteq> [] then [] else lit ''ADD_'' @ req @ lit ''_QUESTION'')\<rparr>)"

definition write_coverage :: "cov \<Rightarrow> py_error + cov_row_gap list" where
  "write_coverage cov = collect (coverage_line cov) REQS"

text \<open>
  What a run finds in the file system: whether the questions file and the PDF template
  exist, the header and the rows of the questions file as \<^verbatim>\<open>csv.DictReader\<close> reads them,
  and what the PDF library makes of the template (the library may be missing, it may
  fail on the file, or it gives the form fields: name, page and type).
\<close>

datatype pdf_env = NoPyPDF2 | Unreadable | Fields "(ustring \<times> nat option \<times> ustring) list"

record files =
  questions_exists :: bool
  pdf_exists :: bool
  fieldnames :: "ustring list"
  rows :: "row list"
  pdf :: pdf_env

record summary =
  total_questions :: nat
  requirements :: "(ustring \<times> nat) list"
  missing_evidence_count :: nat

datatype artifact =
    CoverageReport "cov_row_gap list"
  | BindingMap "(ustring \<times> nat option \<times> ustring) list"
  | Phase2Coverage "cov_row list"
  | Phase2MissingEvidence "(ustring \<times> ustring) list"
  | Phase2Summary summary

text \<open>How a run ends: \<^verbatim>\<open>sys.exit\<close> with a status, or an exception that nothing catches.\<close>

datatype exit_status = Exit nat | Traceback py_error

text \<open>
  \<^verbatim>\<open>main\<close> of \<^verbatim>\<open>phase0_generate_reports.py\<close>: the exit status and the artifacts written,
  in the order of writing. \<^verbatim>\<open>sys.exit\<close> with a message is status 1. The PDF library is
  imported after the coverage report has been written.
\<close>

definition phase0_main ::
  "unicode \<Rightarrow> (ustring set \<Rightarrow> ustring list) \<Rightarrow> files \<Rightarrow> exit_status \<times> artifact list" where
  "phase0_main X ord env =
     (if \<not> questions_exists env then (Exit 1, [])
      else if \<not> pdf_exists env then (Exit 1, [])
      else case and_then (coverage_from_rows_ord X ord (rows env)) write_coverage of
        Inl e \<Rightarrow> (Traceback e, [])
      | Inr table \<Rightarrow>
          (let written = [CoverageReport table] in
           case pdf env of
             NoPyPDF2 \<Rightarrow> (Exit 1, written)
           | Unreadable \<Rightarrow> (Traceback PdfError, written)
           | Fields fs \<Rightarrow> (Exit 0, written @ [BindingMap fs])))"

section \<open>The engine of phase 2\<close>

record entry =
  count :: nat
  ids :: "ustring list"

type_synonym coverage = "ustring \<rightharpoonup> entry"

record engine_state =
  st_coverage :: coverage
  st_missing_ev :: "(ustring \<times> ustring) list"
  st_total :: nat

definition init_state :: engine_state where
  "init_state = \<lparr>st_coverage = map_of (map (\<lambda>r. (r, \<lparr>count = 0, ids = []\<rparr>)) REQS),
                 st_missing_ev = [], st_total = 0\<rparr>"

text \<open>The flexible field discovery: the first of two lower-case names that is a column.\<close>

definition col_choice :: "ustring set \<Rightarrow> ustring \<Rightarrow> ustring \<Rightarrow> ustring option" where
  "col_choice cols a b = (if a \<in> cols then Some a else if b \<in> cols then Some b else None)"

text \<open>\<^verbatim>\<open>coverage[r]["count"] += 1; coverage[r]["ids"].append(qid)\<close>.\<close>

definition hit :: "ustring \<Rightarrow> ustring \<Rightarrow> coverage \<Rightarrow> py_error + coverage" where
  "hit q r cov =
     (case cov r of None \<Rightarrow> Inl KeyError
      | Some e \<Rightarrow> Inr (cov(r \<mapsto> e\<lparr>count := count e + 1, ids := ids e @ [q]\<rparr>)))"

text \<open>\<^verbatim>\<open>row.get(evcol, "") if evcol else ""\<close>.\<close>

definition ev_cell :: "ustring option \<Rightarrow> row \<Rightarrow> ustring option" where
  "ev_cell evcol row = (case evcol of None \<Rightarrow> Some [] | Some c \<Rightarrow> row_get_default row c)"

text \<open>
  The body of the loop over the rows. \<^verbatim>\<open>.strip()\<close> on a cell that is \<^verbatim>\<open>None\<close> raises
  \<^verbatim>\<open>AttributeError\<close>. \<open>ord\<close> is the order in which \<^verbatim>\<open>sorted\<close> reads the set.
\<close>

definition engine_row ::
  "unicode \<Rightarrow> (ustring set \<Rightarrow> ustring list) \<Rightarrow> ustring \<Rightarrow> ustring \<Rightarrow> ustring option \<Rightarrow> row \<Rightarrow>
   engine_state \<Rightarrow> py_error + engine_state" where
  "engine_row X ord idcol tagcol evcol row st =
     (case row_get_default row idcol of
        None \<Rightarrow> Inl AttributeError
      | Some v \<Rightarrow>
          (let q = strip X v;
               tags = norm_tags X (row_get_default row tagcol);
               matched = sort (filter (\<lambda>r. r \<in> tags) REQS)
           in and_then (for_each (hit q) matched (st_coverage st)) (\<lambda>cov.
                let st1 = st\<lparr>st_coverage := cov, st_total := st_total st + 1\<rparr> in
                if lit ''EVIDENCE_REQUIRED'' \<in> tags then
                  (case ev_cell evcol row of
                     None \<Rightarrow> Inl AttributeError
                   | Some e \<Rightarrow>
                       if strip X e = [] then
                         Inr (st1\<lparr>st_missing_ev :=
                                st_missing_ev st1 @ [(q, join (lit '','') (sort (ord tags)))]\<rparr>)
                       else Inr st1)
                else Inr st1)))"

text \<open>The rows of the coverage table and the counts of the summary.\<close>

definition cov_row_of :: "coverage \<Rightarrow> ustring \<Rightarrow> py_error + cov_row" where
  "cov_row_of cov r =
     (case cov r of None \<Rightarrow> Inl KeyError
      | Some e \<Rightarrow> Inr \<lparr>Requirement = r,
                       Covered = (if count e > 0 then lit ''Y'' else lit ''N''),
                       Count = count e,
                       QuestionIDs = join (lit '';'') (ids e)\<rparr>)"

definition count_of :: "coverage \<Rightarrow> ustring \<Rightarrow> py_error + (ustring \<times> nat)" where
  "count_of cov r = (case cov r of None \<Rightarrow> Inl KeyError | Some e \<Rightarrow> Inr (r, count e))"

text \<open>
  \<^verbatim>\<open>main\<close> of \<^verbatim>\<open>engine_cli.py\<close>: the exit status and the artifacts written. The three
  artifacts are written after the loop over the rows. The summary's paths of the two
  tables depend on the environment variables only and are left out.
\<close>

definition engine_loop ::
  "unicode \<Rightarrow> (ustring set \<Rightarrow> ustring list) \<Rightarrow> ustring \<Rightarrow> ustring \<Rightarrow> ustring option \<Rightarrow> row list \<Rightarrow>
   py_error + engine_state" where
  "engine_loop X ord idcol tagcol evcol rs =
     for_each (engine_row X ord idcol tagcol evcol) rs init_state"

definition engine_reports :: "engine_state \<Rightarrow> py_error + artifact list" where
  "engine_reports st =
     and_then (collect (cov_row_of (st_coverage st)) REQS) (\<lambda>cov_rows.
     and_then (collect (count_of (st_coverage st)) REQS) (\<lambda>counts.
       Inr [Phase2Coverage cov_rows,
            Phase2MissingEvidence (st_missing_ev st),
            Phase2Summary \<lparr>total_questions = st_total st,
              requirements = counts,
              missing_evidence_count = length (st_missing_ev st)\<rparr>]))"

definition idcol_of :: "unicode \<Rightarrow> files \<Rightarrow> ustring option" where
  "idcol_of X env =
     col_choice (set (map (lower X) (fieldnames env))) (lit ''id'') (lit ''question_id'')"

definition tagcol_of :: "unicode \<Rightarrow> files \<Rightarrow> ustring option" where
  "tagcol_of X env =
     col_choice (set (map (lower X) (fieldnames env))) (lit ''tags'') (lit ''tag'')"

definition evcol_of :: "unicode \<Rightarrow> files \<Rightarrow> ustring option" where
  "evcol_of X env =
     col_choice (set (map (lower X) (fieldnames env))) (lit ''evidence'') (lit ''evidence_path'')"

definition engine_main ::
  "unicode \<Rightarrow> (ustring set \<Rightarrow> ustring list) \<Rightarrow> files \<Rightarrow> exit_status \<times> artifact list" where
  "engine_main X ord env =
     (if \<not> questions_exists env then (Exit 2, [])
      else case (idcol_of X env, tagcol_of X env) of
          (Some idcol, Some tagcol) \<Rightarrow>
            (case and_then (engine_loop X ord idcol tagcol (evcol_of X env) (rows env))
                    engine_reports of
               Inl e \<Rightarrow> (Traceback e, [])
             | Inr written \<Rightarrow> (Exit 0, written))
        | _ \<Rightarrow> (Exit 3, []))"

text \<open>The id list of a code at the end of the engine's loop, if the loop comes to its end.\<close>

definition final_ids :: "py_error + engine_state \<Rightarrow> ustring \<Rightarrow> ustring list option" where
  "final_ids res r =
     (case res of Inl e \<Rightarrow> None
      | Inr st \<Rightarrow> (case st_coverage st r of None \<Rightarrow> None | Some e \<Rightarrow> Some (ids e)))"

text \<open>The id of a row as the engine reads it, and whether the row carries a requirement.\<close>

definition engine_qid :: "unicode \<Rightarrow> ustring \<Rightarrow> row \<Rightarrow> ustring" where
  "engine_qid X idcol row = strip X (case row_get_default row idcol of None \<Rightarrow> [] | Some v \<Rightarrow> v)"

definition engine_tags :: "unicode \<Rightarrow> ustring \<Rightarrow> row \<Rightarrow> ustring set" where
  "engine_tags X tagcol row = norm_tags X (row_get_default row tagcol)"

text \<open>
  A row that the engine's loop body gets through: the id cell is a string, and so is the
  evidence cell when the row is tagged as requiring evidence.
\<close>

definition row_ok :: "unicode \<Rightarrow> ustring \<Rightarrow> ustring \<Rightarrow> ustring option \<Rightarrow> row \<Rightarrow> bool" where
  "row_ok X idcol tagcol evcol row =
     (row_get_default row idcol \<noteq> None
      \<and> (lit ''EVIDENCE_REQUIRED'' \<in> engine_tags X tagcol row \<longrightarrow> ev_cell evcol row \<noteq> None))"

text \<open>The rows that the evidence gate reports, and the entry it makes for a row.\<close>

definition lacks_evidence :: "unicode \<Rightarrow> ustring \<Rightarrow> ustring option \<Rightarrow> row \<Rightarrow> bool" where
  "lacks_evidence X tagcol evcol row =
     (lit ''EVIDENCE_REQUIRED'' \<in> engine_tags X tagcol row
      \<and> strip X (case ev_cell evcol row of None \<Rightarrow> [] | Some e \<Rightarrow> e) = [])"

definition gap_entry ::
  "unicode \<Rightarrow> (ustring set \<Rightarrow> ustring list) \<Rightarrow> ustring \<Rightarrow> ustring \<Rightarrow> row \<Rightarrow> ustring \<times> ustring" where
  "gap_entry X ord idcol tagcol row =
     (engine_qid X idcol row, join (lit '','') (sort (ord (engine_tags X tagcol row))))"

text \<open>Counting a row under every code of a set.\<close>

definition bump :: "ustring \<Rightarrow> ustring set \<Rightarrow> coverage \<Rightarrow> coverage" where
  "bump q C cov =
     (\<lambda>r. if r \<in> C then map_option (\<lambda>e. e\<lparr>count := count e + 1, ids := ids e @ [q]\<rparr>) (cov r)
          else cov r)"

text \<open>The ids of the rows tagged with a code, in the order of the input, for the engine.\<close>

definition engine_ids :: "unicode \<Rightarrow> ustring \<Rightarrow> ustring \<Rightarrow> row list \<Rightarrow> ustring \<Rightarrow> ustring list" where
  "engine_ids X idcol tagcol rs r =
     map (engine_qid X idcol) (filter (\<lambda>row. r \<in> engine_tags X tagcol row) rs)"

text \<open>
  An order in which Python may enumerate a set (\<^verbatim>\<open>list(tags)\<close>, \<^verbatim>\<open>sorted(tags)\<close>): every
  element of the set, once. The order depends on the hashes of the strings, which change
  from one run of the interpreter to the next.
\<close>

definition valid_order :: "(ustring set \<Rightarrow> ustring list) \<Rightarrow> bool" where
  "valid_order ord = (\<forall>S. finite S \<longrightarrow> set (ord S) = S \<and> distinct (ord S))"

section \<open>Example inputs\<close>

text \<open>
  The examples are ASCII text, on which no entry of the character database is read:
  their values are the same for every \<open>X\<close>. Where a statement without a variable is
  needed, they are computed with \<open>plain\<close>, a database in which no code point from 128 on
  is special.
\<close>

definition plain :: unicode where
  "plain = \<lparr>x_space = (\<lambda>c. False), x_word = (\<lambda>c. False), x_digit = (\<lambda>c. False),
            x_upper = (\<lambda>s. s), x_lower = (\<lambda>s. s), x_int = (\<lambda>s. None)\<rparr>"

text \<open>
  The same database with the superscript digits one, two and three, which \<^verbatim>\<open>isdigit\<close>
  accepts and \<^verbatim>\<open>int\<close> refuses.
\<close>

definition superscripts :: unicode where
  "superscripts = plain\<lparr>x_digit := (\<lambda>c. c = 178 \<or> c = 179 \<or> c = 185)\<rparr>"

definition mk_row :: "(string \<times> string option) list \<Rightarrow> row" where
  "mk_row cs = \<lparr>cells = map (\<lambda>(k, v). (lit k, map_option lit v)) cs, extra = []\<rparr>"

text \<open>
  A questions table with two tag columns and a text column. The first row matches
  \<open>CR1\<close> through both tag columns, the second has an empty id cell, the third matches
  \<open>CR1\<close> through a tag and through the text.
\<close>

definition ex_rows :: "row list" where
  "ex_rows = map mk_row
     [[(''ID'', Some ''Q2''), (''Tags'', Some ''CR01''), (''Category'', Some ''cr_1; b''),
       (''Text'', Some ''nothing'')],
      [(''ID'', Some []), (''Tags'', Some ''A/CR2''), (''Category'', None),
       (''Text'', Some ''An example'')],
      [(''ID'', Some ''Q1''), (''Tags'', Some ''cr1, a''), (''Category'', Some []),
       (''Text'', Some ''see CR-01 and cr 10'')]]"

definition ex_text_rows :: "row list" where
  "ex_text_rows = map mk_row
     [[(''id'', Some ''Q7''), (''tags'', Some ''b''),
       (''text'', Some ''Plan A: see CR-03 and CR10 for details'')]]"

text \<open>
  A table for the engine with the columns \<open>id\<close>, \<open>tags\<close> and \<open>evidence\<close>; the
  same table with the id \<open>Q1\<close> on two rows; a table whose second line stops before the
  evidence cell.
\<close>

definition ex_engine_rows :: "row list" where
  "ex_engine_rows = map mk_row
     [[(''id'', Some ''Q1''), (''tags'', Some ''cr1, EVIDENCE_REQUIRED''), (''evidence'', Some [])],
      [(''id'', Some ''Q2''), (''tags'', Some ''CR1;a''), (''evidence'', Some ''x'')],
      [(''id'', Some ''Q3''), (''tags'', Some ''evidence_required''), (''evidence'', Some ''doc.pdf'')]]"


definition ex_short_rows :: "row list" where
  "ex_short_rows = map mk_row
     [[(''id'', Some ''Q1''), (''tags'', Some ''CR1''), (''evidence'', Some ''a.pdf'')],
      [(''id'', Some ''Q2''), (''tags'', Some ''EVIDENCE_REQUIRED''), (''evidence'', None)]]"

definition ex_files :: "string list \<Rightarrow> row list \<Rightarrow> files" where
  "ex_files header rs =
     \<lparr>questions_exists = True, pdf_exists = True, fieldnames = map lit header, rows = rs,
      pdf = Fields []\<rparr>"

definition ex_padded_rows :: "row list" where
  "ex_padded_rows = map mk_row
     [[(''id'', Some ''Q1''), (''tags'', Some ''CR01''), (''evidence'', Some [])],
      [(''id'', Some ''Q2''), (''tags'', Some ''cr-2, Cr_003''), (''evidence'', Some [])]]"

text \<open>A table that has neither an identifier column nor a tag column.\<close>

definition ex_nocol_rows :: "row list" where
  "ex_nocol_rows = map mk_row
     [[(''question'', Some ''Is CR1 covered?''), (''owner'', Some ''ops'')],
      [(''question'', Some ''Anything else?''), (''owner'', Some ''qa'')]]"


definition ex_long_first_rows :: "row list" where
  "ex_long_first_rows =
     [(mk_row [(''tags'', Some ''CR2'')])\<lparr>extra := [lit ''extra'']\<rparr>,
      mk_row [(''tags'', Some ''CR1'')]]"

definition ex_superscript_rows :: "row list" where
  "ex_superscript_rows =
     [mk_row [(''id'', Some ''Q1''), (''tags'', Some ''CR1'')],
      \<lparr>cells = [(lit ''id'', Some (lit ''Q2'')), (lit ''tags'', Some (lit ''CR'' @ [178]))], extra = []\<rparr>]"

section \<open>Properties of tag normalisation\<close>

lemma strip_Nil: "strip X [] = []"
  by (simp add: strip_def)

lemma re_split_delims_True:
  "list_all (is_delim X) ds \<Longrightarrow> re_split X True cur (ds @ b) = re_split X True cur b"
  by (induction ds) auto

lemma re_split_True_False:
  "\<not> Q [] \<Longrightarrow> {t \<in> set (re_split X True [] b). Q t} = {t \<in> set (re_split X False [] b). Q t}"
  by (cases b) auto

lemma re_split_append:
  assumes "ds \<noteq> []" "list_all (is_delim X) ds" "\<not> Q []" "r \<longrightarrow> cur = []"
  shows "{t \<in> set (re_split X r cur (a @ ds @ b)). Q t} =
         {t \<in> set (re_split X r cur a). Q t} \<union> {t \<in> set (re_split X False [] b). Q t}"
  using assms(4)
proof (induction a arbitrary: r cur)
  case Nil
  obtain d ds' where ds: "ds = d # ds'" using assms(1) by (cases ds) auto
  with assms(2) have d: "is_delim X d" and ds': "list_all (is_delim X) ds'" by auto
  show ?case
    using Nil d assms(3) re_split_True_False[of Q X b]
    by (auto simp: ds re_split_delims_True[OF ds'])
next
  case (Cons c a)
  show ?case
  proof (cases "is_delim X c")
    case True
    then show ?thesis using Cons.prems Cons.IH[of True "[]"] by auto
  next
    case False
    then show ?thesis using Cons.IH[of False "cur @ [c]"] by simp
  qed
qed

lemma tokens_from_append:
  assumes "ds \<noteq> []" "list_all (is_delim X) ds"
  shows "tokens_from X (Some (a @ ds @ b)) = tokens_from X (Some a) \<union> tokens_from X (Some b)"
proof -
  let ?Q = "\<lambda>t. strip X t \<noteq> []"
  have T: "set (tokens_list X s)
           = (\<lambda>t. upper X (strip X t)) ` {t \<in> set (re_split X False [] s). ?Q t}" for s
    by (auto simp: tokens_list_def)
  have E: "tokens_from X (Some s) = set (tokens_list X s)" for s
    by (auto simp: tokens_from_def tokens_list_def strip_Nil)
  have "{t \<in> set (re_split X False [] (a @ ds @ b)). ?Q t} =
        {t \<in> set (re_split X False [] a). ?Q t} \<union> {t \<in> set (re_split X False [] b). ?Q t}"
    by (rule re_split_append[OF assms]) (simp_all add: strip_Nil)
  then show ?thesis unfolding E T by (simp add: image_Un)
qed

lemma split_on_set:
  "set (split_on d cur (a @ d # b)) = set (split_on d cur a) \<union> set (split_on d [] b)"
  by (induction a arbitrary: cur) auto

lemma upper_Nil: "upper X [] = []"
  by (simp add: upper_def is_ascii_def)

lemma norm_tags_append:
  assumes "d = ch CHR '','' \<or> d = ch CHR '';''"
  shows "norm_tags X (Some (a @ d # b)) = norm_tags X (Some a) \<union> norm_tags X (Some b)"
proof -
  let ?m = "map (\<lambda>c. if c = ch CHR '';'' then ch CHR '','' else c)"
  let ?f = "\<lambda>t. filter (\<lambda>c. c \<noteq> ch CHR '' '') (upper X (strip X t))"
  have E: "norm_tags X (Some s) = {t \<in> ?f ` set (split_on (ch CHR '','') [] (?m s)). t \<noteq> []}" for s
    by (auto simp: norm_tags_def norm_tags_list_def strip_Nil upper_Nil)
  have "?m (a @ d # b) = ?m a @ ch CHR '','' # ?m b" using assms by auto
  then show ?thesis unfolding E by (auto simp: split_on_set)
qed

lemma tokens_from_examples:
  "tokens_from X (Some (lit ''CR1, CR2'')) = {lit ''CR1'', lit ''CR2''}"
  "tokens_from X (Some (lit ''CR1;CR2'')) = {lit ''CR1'', lit ''CR2''}"
  "tokens_from X (Some (lit ''CR1|CR2'')) = {lit ''CR1'', lit ''CR2''}"
  by code_simp+

lemma norm_tags_examples:
  "norm_tags X (Some (lit ''CR1, CR2'')) = {lit ''CR1'', lit ''CR2''}"
  "norm_tags X (Some (lit ''CR1;CR2'')) = {lit ''CR1'', lit ''CR2''}"
  "norm_tags X (Some (lit ''CR1|CR2'')) = {lit ''CR1|CR2''}"
  by code_simp+

text \<open>
  Claim C2, as stated, fails on the engine's \<open>norm_tags\<close>: the pipe is not one of its
  delimiters, so \<^verbatim>\<open>"CR1|CR2"\<close> does not normalise to the set of \<open>CR1\<close> and \<open>CR2\<close>
  (lemma \<open>norm_tags_examples\<close> gives its value for every \<open>X\<close>).
\<close>

theorem norm_tags_pipe_counterexample:
  "norm_tags plain (Some (lit ''CR1|CR2'')) \<noteq> {lit ''CR1'', lit ''CR2''}"
  by code_simp

text \<open>
  Claim C2, amended. \<open>tokens_from\<close> is delimiter-agnostic: any non-empty run \<open>ds\<close> of
  commas, semicolons, pipes, slashes and white space between two texts gives the union of
  the token sets of the two texts, whatever the run is; so the three spellings of the
  example all normalise to the set of \<open>CR1\<close> and \<open>CR2\<close>. The engine's \<open>norm_tags\<close>
  splits at commas and semicolons only: the comma and the semicolon spelling normalise to
  that set, the pipe spelling to the single token \<^verbatim>\<open>CR1|CR2\<close>. Both functions are total
  and return the empty set on \<^verbatim>\<open>None\<close> and on the empty string.
\<close>

theorem tag_normalisation_delimiters:
  "(ds \<noteq> [] \<and> list_all (is_delim X) ds \<longrightarrow>
      tokens_from X (Some (a @ ds @ b)) = tokens_from X (Some a) \<union> tokens_from X (Some b))
   \<and> (d = ch CHR '','' \<or> d = ch CHR '';'' \<longrightarrow>
      norm_tags X (Some (a @ d # b)) = norm_tags X (Some a) \<union> norm_tags X (Some b))
   \<and> tokens_from X (Some (lit ''CR1, CR2'')) = {lit ''CR1'', lit ''CR2''}
   \<and> tokens_from X (Some (lit ''CR1;CR2'')) = {lit ''CR1'', lit ''CR2''}
   \<and> tokens_from X (Some (lit ''CR1|CR2'')) = {lit ''CR1'', lit ''CR2''}
   \<and> norm_tags X (Some (lit ''CR1, CR2'')) = {lit ''CR1'', lit ''CR2''}
   \<and> norm_tags X (Some (lit ''CR1;CR2'')) = {lit ''CR1'', lit ''CR2''}
   \<and> norm_tags X (Some (lit ''CR1|CR2'')) = {lit ''CR1|CR2''}
   \<and> tokens_from X None = {} \<and> tokens_from X (Some []) = {}
   \<and> norm_tags X None = {} \<and> norm_tags X (Some []) = {}"
proof -
  have "tokens_from X None = {} \<and> tokens_from X (Some []) = {}
        \<and> norm_tags X None = {} \<and> norm_tags X (Some []) = {}"
    by (simp add: tokens_from_def norm_tags_def)
  then show ?thesis
    using tokens_from_append[of ds X a b] norm_tags_append[of d X a b]
    by (simp only: tokens_from_examples norm_tags_examples) blast
qed

theorem tag_normalisation_delimiters_witness:
  "lit '' |; '' \<noteq> [] \<and> list_all (is_delim plain) (lit '' |; '')
   \<and> tokens_from plain (Some (lit ''cr1'' @ lit '' |; '' @ lit ''Cr2'')) = {lit ''CR1'', lit ''CR2''}
   \<and> norm_tags plain (Some (lit ''cr1'' @ ch CHR '';'' # lit ''Cr2'')) = {lit ''CR1'', lit ''CR2''}"
proof -
  have h: "lit '' |; '' \<noteq> [] \<and> list_all (is_delim plain) (lit '' |; '')" by code_simp
  have t: "tokens_from plain (Some (lit ''cr1'')) \<union> tokens_from plain (Some (lit ''Cr2''))
           = {lit ''CR1'', lit ''CR2''}"
    by code_simp
  have n: "norm_tags plain (Some (lit ''cr1'')) \<union> norm_tags plain (Some (lit ''Cr2''))
           = {lit ''CR1'', lit ''CR2''}"
    by code_simp
  show ?thesis
    using h t n tag_normalisation_delimiters[of "lit '' |; ''" plain "lit ''cr1''" "lit ''Cr2''" "ch CHR '';''"]
    by simp
qed

section \<open>The coverage aggregator of phase 0\<close>

lemma add_new_idem: "add_new q (add_new q qs) = add_new q qs"
  by (simp add: add_new_def)

lemma mark_empty: "mark q {} cov = cov"
  by (simp add: mark_def)

lemma mark_mark: "mark q A (mark q B cov) = mark q (A \<union> B) cov"
  by (rule ext) (auto simp: mark_def add_new_idem option.map_comp comp_def cong: option.map_cong)

lemma dom_mark: "dom (mark q C cov) = dom cov"
  by (auto simp: mark_def dom_def split: if_splits)

lemma cov_add_mark: "cr \<in> dom cov \<Longrightarrow> cov_add q cr cov = Inr (mark q {cr} cov)"
  by (auto simp: cov_add_def mark_def add_new_def fun_eq_iff split: option.splits)

lemma for_each_mark:
  assumes "\<And>x cov. f x cov = (case g x of Inl e \<Rightarrow> Inl e | Inr None \<Rightarrow> Inr cov
                                | Inr (Some c) \<Rightarrow> cov_add q c cov)"
    and "\<And>x c. x \<in> set xs \<Longrightarrow> g x = Inr (Some c) \<Longrightarrow> c \<in> dom cov"
    and "\<And>x e. x \<in> set xs \<Longrightarrow> g x \<noteq> Inl e"
  shows "for_each f xs cov = Inr (mark q {c. \<exists>x \<in> set xs. g x = Inr (Some c)} cov)"
  using assms(2,3)
proof (induction xs arbitrary: cov)
  case Nil
  then show ?case by (simp add: mark_empty)
next
  case (Cons x xs)
  from Cons.prems(2)[of x] obtain v where v: "g x = Inr v" by (cases "g x") auto
  show ?case
  proof (cases v)
    case None
    have "for_each f xs cov = Inr (mark q {c. \<exists>x \<in> set xs. g x = Inr (Some c)} cov)"
      using Cons.prems by (intro Cons.IH) auto
    moreover have "{c. \<exists>y \<in> set (x # xs). g y = Inr (Some c)} = {c. \<exists>x \<in> set xs. g x = Inr (Some c)}"
      using None v by auto
    moreover have "f x cov = Inr cov" using None v by (simp add: assms(1))
    ultimately show ?thesis by simp
  next
    case (Some c)
    then have c: "c \<in> dom cov" using Cons.prems v by auto
    have "for_each f xs (mark q {c} cov)
          = Inr (mark q {c. \<exists>x \<in> set xs. g x = Inr (Some c)} (mark q {c} cov))"
      using Cons.prems by (intro Cons.IH) (auto simp: dom_mark)
    moreover have "{c. \<exists>x \<in> set xs. g x = Inr (Some c)} \<union> {c}
                   = {c. \<exists>y \<in> set (x # xs). g y = Inr (Some c)}"
      using Some v by auto
    moreover have "f x cov = Inr (mark q {c} cov)" using Some v c by (simp add: assms(1) cov_add_mark)
    ultimately show ?thesis by (simp add: mark_mark)
  qed
qed

lemma for_each_raises:
  assumes "\<And>x cov. f x cov = (case g x of Inl e \<Rightarrow> Inl e | Inr None \<Rightarrow> Inr cov
                                | Inr (Some c) \<Rightarrow> cov_add q c cov)"
    and "\<And>x c. x \<in> set xs \<Longrightarrow> g x = Inr (Some c) \<Longrightarrow> c \<in> dom cov"
    and "\<And>x e. x \<in> set xs \<Longrightarrow> g x = Inl e \<Longrightarrow> e = E"
    and "\<exists>x \<in> set xs. g x = Inl E"
  shows "for_each f xs cov = Inl E"
  using assms(2,3,4)
proof (induction xs arbitrary: cov)
  case Nil
  then show ?case by simp
next
  case (Cons x xs)
  show ?case
  proof (cases "g x")
    case (Inl e)
    then have "e = E" using Cons.prems(2)[of x e] by simp
    then have "f x cov = Inl E" using Inl by (simp add: assms(1))
    then show ?thesis by simp
  next
    case (Inr v)
    then have ex: "\<exists>x \<in> set xs. g x = Inl E" using Cons.prems(3) by auto
    show ?thesis
    proof (cases v)
      case None
      have "for_each f xs cov = Inl E" using Cons.prems ex by (intro Cons.IH) auto
      moreover have "f x cov = Inr cov" using None Inr by (simp add: assms(1))
      ultimately show ?thesis by simp
    next
      case (Some c)
      then have c: "c \<in> dom cov" using Cons.prems Inr by auto
      have "for_each f xs (mark q {c} cov) = Inl E"
        using Cons.prems ex by (intro Cons.IH) (auto simp: dom_mark)
      moreover have "f x cov = Inr (mark q {c} cov)"
        using Some Inr c by (simp add: assms(1) cov_add_mark)
      ultimately show ?thesis by simp
    qed
  qed
qed

lemma str_nat_small: "n < 10 \<Longrightarrow> str_nat n = [48 + n]"
  by (subst str_nat.simps) simp

lemma REQS_CR: "1 \<le> n \<Longrightarrow> n \<le> 10 \<Longrightarrow> lit ''CR'' @ str_nat n \<in> set REQS"
  by (auto simp: REQS_def)

lemma REQS_letters: "l \<in> set LETTERS \<Longrightarrow> l \<in> set REQS"
  by (auto simp: REQS_def)

lemma norm_cr_form:
  "norm_cr X t = Inr (Some c) \<Longrightarrow> \<exists>n. 1 \<le> n \<and> n \<le> 10 \<and> c = lit ''CR'' @ str_nat n"
  by (auto simp: norm_cr_def Let_def split: if_splits option.splits)

lemma norm_cr_REQS: "norm_cr X t = Inr (Some c) \<Longrightarrow> c \<in> set REQS"
  using norm_cr_form[of X t c] REQS_CR by blast

lemma norm_cr_raises: "norm_cr X t = Inl e \<Longrightarrow> e = ValueError"
  by (auto simp: norm_cr_def Let_def split: if_splits option.splits)

lemma digit_value: "c \<in> set (lit ''123456789'') \<Longrightarrow> 1 \<le> c - 48 \<and> c - 48 \<le> 9"
  by (auto simp: lit_def ch_def)

lemma cr_match_at_range: "cr_match_at X s i = Some (e, k) \<Longrightarrow> 1 \<le> k \<and> k \<le> 10"
  unfolding cr_match_at_def Let_def char_at_def
  by (auto split: if_splits dest!: digit_value)

lemma cr_scan_range: "k \<in> set (cr_scan X fuel s i) \<Longrightarrow> 1 \<le> k \<and> k \<le> 10"
proof (induction X fuel s i rule: cr_scan.induct)
  case (1 X s i)
  then show ?case by simp
next
  case (2 X fuel s i)
  then show ?case
    by (auto split: option.splits dest: cr_match_at_range)
qed

lemma cr_finditer_range: "k \<in> set (cr_finditer X s) \<Longrightarrow> 1 \<le> k \<and> k \<le> 10"
  unfolding cr_finditer_def by (rule cr_scan_range)

lemma finite_tokens_from: "finite (tokens_from X v)"
  by (auto simp: tokens_from_def split: option.splits)

lemma finite_row_tags: "finite (row_tags X tag_fields row)"
  by (simp add: row_tags_def finite_tokens_from)

lemma cr_of_tag_iff: "c \<in> cr_of_tag X t \<longleftrightarrow> norm_cr X t = Inr (Some c)"
  by (auto simp: cr_of_tag_def split: sum.splits option.splits)

lemma process_row_raises:
  assumes dom: "dom cov = set REQS"
    and ord: "set (ord (row_tags X tag_fields row)) = row_tags X tag_fields row"
    and bad: "bad_row X tag_fields row"
  shows "process_row X ord id_field txt_field tag_fields idx row cov = Inl ValueError"
proof -
  let ?q = "row_qid id_field idx row"
  let ?tags = "row_tags X tag_fields row"
  have "for_each (tag_step X ?q) (ord ?tags) cov = Inl ValueError"
  proof (rule for_each_raises[where g = "norm_cr X" and q = ?q])
    show "tag_step X ?q x cov = (case norm_cr X x of Inl e \<Rightarrow> Inl e | Inr None \<Rightarrow> Inr cov
            | Inr (Some c) \<Rightarrow> cov_add ?q c cov)" for x cov
      by (simp add: tag_step_def)
    show "c \<in> dom cov" if "norm_cr X x = Inr (Some c)" for x c
      using that by (simp add: dom norm_cr_REQS)
    show "e = ValueError" if "norm_cr X x = Inl e" for x e
      using that by (rule norm_cr_raises)
    show "\<exists>x \<in> set (ord ?tags). norm_cr X x = Inl ValueError"
      using bad by (simp add: ord bad_row_def)
  qed
  then show ?thesis by (simp add: process_row_def Let_def and_then_def)
qed

lemma process_row_mark:
  assumes dom: "dom cov = set REQS"
    and ord: "set (ord (row_tags X tag_fields row)) = row_tags X tag_fields row"
    and good: "\<not> bad_row X tag_fields row"
  shows "process_row X ord id_field txt_field tag_fields idx row cov
         = Inr (mark (row_qid id_field idx row) (row_hits X txt_field tag_fields row) cov)"
proof -
  let ?q = "row_qid id_field idx row"
  let ?tags = "row_tags X tag_fields row"
  let ?A = "\<Union>t \<in> ?tags. cr_of_tag X t"
  let ?B = "set LETTERS \<inter> ?tags"
  let ?C = "case row_text txt_field row of None \<Rightarrow> {}
        | Some tx \<Rightarrow> (\<lambda>k. lit ''CR'' @ str_nat k) ` set (cr_finditer X tx)"
  have 1: "for_each (tag_step X ?q) (ord ?tags) cov = Inr (mark ?q ?A cov)"
  proof -
    have "for_each (tag_step X ?q) (ord ?tags) cov
          = Inr (mark ?q {c. \<exists>t \<in> set (ord ?tags). norm_cr X t = Inr (Some c)} cov)"
    proof (rule for_each_mark[where g = "norm_cr X" and q = ?q])
      show "tag_step X ?q x cov = (case norm_cr X x of Inl e \<Rightarrow> Inl e | Inr None \<Rightarrow> Inr cov
            | Inr (Some c) \<Rightarrow> cov_add ?q c cov)" for x cov
        by (simp add: tag_step_def)
      show "c \<in> dom cov" if "norm_cr X x = Inr (Some c)" for x c
        using that by (simp add: dom norm_cr_REQS)
      show "norm_cr X x \<noteq> Inl e" if "x \<in> set (ord ?tags)" for x e
        using that good norm_cr_raises[of X x e] by (auto simp: ord bad_row_def)
    qed
    moreover have "{c. \<exists>t \<in> set (ord ?tags). norm_cr X t = Inr (Some c)} = ?A"
      by (auto simp: ord cr_of_tag_iff)
    ultimately show ?thesis by simp
  qed
  have 2: "for_each (letter_step ?q ?tags) LETTERS cov1 = Inr (mark ?q ?B cov1)"
    if "dom cov1 = set REQS" for cov1
  proof -
    have "for_each (letter_step ?q ?tags) LETTERS cov1
          = Inr (mark ?q {c. \<exists>x \<in> set LETTERS.
                   Inr (if x \<in> ?tags then Some x else None) = (Inr (Some c) :: py_error + ustring option)} cov1)"
      by (rule for_each_mark[where g = "\<lambda>x. Inr (if x \<in> ?tags then Some x else None)" and q = ?q])
         (auto simp: letter_step_def that REQS_def split: if_splits)
    moreover have "{c. \<exists>x \<in> set LETTERS.
                   Inr (if x \<in> ?tags then Some x else None) = (Inr (Some c) :: py_error + ustring option)} = ?B"
      by auto
    ultimately show ?thesis by simp
  qed
  have 3: "for_each (text_step ?q) (cr_finditer X tx) cov2
           = Inr (mark ?q ((\<lambda>k. lit ''CR'' @ str_nat k) ` set (cr_finditer X tx)) cov2)"
    if "dom cov2 = set REQS" for cov2 tx
  proof -
    have "for_each (text_step ?q) (cr_finditer X tx) cov2
          = Inr (mark ?q {c. \<exists>k \<in> set (cr_finditer X tx).
                   Inr (Some (lit ''CR'' @ str_nat k)) = (Inr (Some c) :: py_error + ustring option)} cov2)"
      by (rule for_each_mark[where g = "\<lambda>k. Inr (Some (lit ''CR'' @ str_nat k))" and q = ?q])
         (auto simp: text_step_def that dest!: cr_finditer_range intro: REQS_CR)
    moreover have "{c. \<exists>k \<in> set (cr_finditer X tx).
                   Inr (Some (lit ''CR'' @ str_nat k)) = (Inr (Some c) :: py_error + ustring option)}
                   = (\<lambda>k. lit ''CR'' @ str_nat k) ` set (cr_finditer X tx)"
      by auto
    ultimately show ?thesis by simp
  qed
  have d1: "dom (mark ?q ?A cov) = set REQS" by (simp add: dom_mark dom)
  have d2: "dom (mark ?q ?B (mark ?q ?A cov)) = set REQS" by (simp add: dom_mark dom)
  have "process_row X ord id_field txt_field tag_fields idx row cov
        = Inr (mark ?q ?C (mark ?q ?B (mark ?q ?A cov)))"
    unfolding process_row_def Let_def and_then_def
    by (simp add: 1 2[OF d1] 3[OF d2] mark_empty split: option.split)
  also have "mark ?q ?C (mark ?q ?B (mark ?q ?A cov)) = mark ?q (row_hits X txt_field tag_fields row) cov"
    by (simp add: mark_mark row_hits_def Un_commute Un_left_commute)
  finally show ?thesis .
qed

lemma rows_loop_raises:
  assumes "dom cov = set REQS" and "\<And>S. finite S \<Longrightarrow> set (ord S) = S"
    and "list_ex (bad_row X tgf) rs"
  shows "rows_loop X ord idf txf tgf idx rs cov = Inl ValueError"
  using assms(1,3)
proof (induction rs arbitrary: idx cov)
  case Nil
  then show ?case by simp
next
  case (Cons row rs)
  have os: "set (ord (row_tags X tgf row)) = row_tags X tgf row"
    by (rule assms(2)) (rule finite_row_tags)
  show ?case
  proof (cases "bad_row X tgf row")
    case True
    then show ?thesis using Cons.prems(1) os by (simp add: process_row_raises)
  next
    case False
    then have ex: "list_ex (bad_row X tgf) rs" using Cons.prems(2) by simp
    have d: "dom (mark (row_qid idf idx row) (row_hits X txf tgf row) cov) = set REQS"
      using Cons.prems(1) by (simp add: dom_mark)
    show ?thesis
      using False Cons.prems(1) os by (simp add: process_row_mark Cons.IH[OF d ex])
  qed
qed

lemma rows_loop_fold:
  assumes "dom cov = set REQS" and "\<And>S. finite S \<Longrightarrow> set (ord S) = S"
    and "\<not> list_ex (bad_row X tgf) rs"
  shows "rows_loop X ord idf txf tgf idx rs cov
         = Inr (\<lambda>r. map_option
                  (fold add_new (map (\<lambda>(i, row). row_qid idf i row)
                     (filter (\<lambda>(i, row). r \<in> row_hits X txf tgf row) (enumerate idx rs))))
                  (cov r))"
  using assms(1,3)
proof (induction rs arbitrary: idx cov)
  case Nil
  then show ?case by (simp add: option.map_ident)
next
  case (Cons row rs)
  have p: "process_row X ord idf txf tgf idx row cov
           = Inr (mark (row_qid idf idx row) (row_hits X txf tgf row) cov)"
    using Cons.prems assms(2) by (intro process_row_mark) (simp_all add: finite_row_tags)
  have d: "dom (mark (row_qid idf idx row) (row_hits X txf tgf row) cov) = set REQS"
    using Cons.prems by (simp add: dom_mark)
  have g: "\<not> list_ex (bad_row X tgf) rs" using Cons.prems by simp
  show ?case
    by (simp add: p Cons.IH[OF d g])
       (auto simp: fun_eq_iff mark_def option.map_comp comp_def)
qed

lemma remdups_drop_earlier: "x \<in> set zs \<Longrightarrow> remdups (ys @ x # zs) = remdups (ys @ zs)"
  by (induction ys) auto

lemma fold_add_new:
  "distinct acc \<Longrightarrow> fold add_new xs acc = rev (remdups (rev (acc @ xs)))"
proof (induction xs arbitrary: acc)
  case Nil
  then show ?case by (simp add: distinct_remdups_id)
next
  case (Cons x xs)
  show ?case
  proof (cases "x \<in> set acc")
    case True
    then show ?thesis using Cons by (simp add: add_new_def remdups_drop_earlier)
  next
    case False
    then show ?thesis using Cons.IH[of "acc @ [x]"] Cons.prems by (simp add: add_new_def)
  qed
qed

lemma empty_cov_dom: "dom empty_cov = set REQS"
  by (auto simp: empty_cov_def dom_map_of_conv_image_fst image_iff)

lemma REQS_eval:
  "REQS = map lit [''CR1'', ''CR2'', ''CR3'', ''CR4'', ''CR5'', ''CR6'', ''CR7'', ''CR8'', ''CR9'', ''CR10'',
           ''A'', ''B'', ''C'', ''D'', ''E'', ''F'', ''G'']"
  by code_simp

lemma empty_cov_REQS: "r \<in> set REQS \<Longrightarrow> empty_cov r = Some []"
  unfolding empty_cov_def by (simp add: map_of_map_restrict)

lemma empty_cov_eq: "empty_cov = (\<lambda>r. if r \<in> set REQS then Some [] else None)"
proof (rule ext)
  fix r show "empty_cov r = (if r \<in> set REQS then Some [] else None)"
    using empty_cov_dom empty_cov_REQS[of r] by (auto simp: dom_def)
qed

lemma first_seen_fold: "fold add_new xs [] = first_seen xs"
  using fold_add_new[of "[]" xs] by (simp add: first_seen_def)

lemma first_col_keys:
  "first_col P (map (\<lambda>(k, v). Some k) cs) = Inr (find P (map fst cs))"
  by (induction cs) auto

lemma all_cols_keys:
  "all_cols P (map (\<lambda>(k, v). Some k) cs) = Inr (filter P (map fst cs))"
  by (induction cs) auto

lemma all_cols_None: "all_cols P (map (\<lambda>(k, v). Some k) cs @ [None]) = Inl AttributeError"
  by (induction cs) auto

lemma first_col_raises: "first_col P ks = Inl e \<Longrightarrow> e = AttributeError"
  by (induction P ks rule: first_col.induct) (auto split: if_splits)

lemma fields_rectangular:
  assumes "extra (hd rs) = []"
  shows "id_field_of X rs = Inr (id_col X rs)" "txt_field_of X rs = Inr (txt_col X rs)"
    "tag_fields_of X rs = Inr (tag_cols X rs)"
  using assms
  by (simp_all add: id_field_of_def txt_field_of_def tag_fields_of_def id_col_def txt_col_def
      tag_cols_def keys_def first_col_keys all_cols_keys)

lemma tag_fields_long: "extra (hd rs) \<noteq> [] \<Longrightarrow> tag_fields_of X rs = Inl AttributeError"
  by (simp add: tag_fields_of_def keys_def all_cols_None)

lemma coverage_long:
  assumes "rs \<noteq> []" "extra (hd rs) \<noteq> []"
  shows "coverage_from_rows_ord X ord rs = Inl AttributeError"
proof -
  have "and_then (id_field_of X rs) (\<lambda>i. and_then (txt_field_of X rs) (\<lambda>t. Inl AttributeError))
        = (Inl AttributeError :: py_error + cov)"
    by (auto simp: and_then_def id_field_of_def txt_field_of_def
        split: sum.splits dest: first_col_raises)
  then show ?thesis
    using assms by (simp add: coverage_from_rows_ord_def tag_fields_long and_then_def)
qed

lemma coverage_from_rows_ord_eq:
  assumes "\<And>S. finite S \<Longrightarrow> set (ord S) = S"
  shows "coverage_from_rows_ord X ord rs
         = (case coverage_error X rs of
              Some e \<Rightarrow> Inl e
            | None \<Rightarrow> Inr (\<lambda>r. if r \<in> set REQS then Some (first_seen (matching_ids X rs r)) else None))"
proof (cases "rs = []")
  case True
  then show ?thesis
    by (simp add: coverage_from_rows_ord_def coverage_error_def empty_cov_eq matching_ids_def
        first_seen_def cong: if_cong)
next
  case False
  show ?thesis
  proof (cases "extra (hd rs) = []")
    case long: False
    then show ?thesis using False by (simp add: coverage_long coverage_error_def)
  next
    case rect: True
    have c: "coverage_from_rows_ord X ord rs
        = rows_loop X ord (id_col X rs) (txt_col X rs) (tag_cols X rs) 1 rs empty_cov"
      using False by (simp add: coverage_from_rows_ord_def fields_rectangular[OF rect] and_then_def)
    show ?thesis
    proof (cases "list_ex (bad_row X (tag_cols X rs)) rs")
      case True
      then show ?thesis
        unfolding c using rect
        by (simp add: rows_loop_raises[OF empty_cov_dom assms] coverage_error_def)
    next
      case good: False
      have "rows_loop X ord (id_col X rs) (txt_col X rs) (tag_cols X rs) 1 rs empty_cov
            = Inr (\<lambda>r. map_option (fold add_new (matching_ids X rs r)) (empty_cov r))"
        unfolding matching_ids_def by (rule rows_loop_fold[OF empty_cov_dom assms good])
      also have "(\<lambda>r. map_option (fold add_new (matching_ids X rs r)) (empty_cov r))
             = (\<lambda>r. if r \<in> set REQS then Some (first_seen (matching_ids X rs r)) else None)"
        by (rule ext) (simp add: empty_cov_eq first_seen_fold)
      finally show ?thesis unfolding c using rect good by (simp add: coverage_error_def)
    qed
  qed
qed

lemma coverage_from_rows_eq:
  "coverage_from_rows X rs
   = (case coverage_error X rs of
        Some e \<Rightarrow> Inl e
      | None \<Rightarrow> Inr (\<lambda>r. if r \<in> set REQS then Some (first_seen (matching_ids X rs r)) else None))"
  unfolding coverage_from_rows_def
  by (rule coverage_from_rows_ord_eq) simp

lemma coverage_returns:
  assumes "coverage_from_rows X rs = Inr cov"
  shows "coverage_error X rs = None"
    and "cov = (\<lambda>r. if r \<in> set REQS then Some (first_seen (matching_ids X rs r)) else None)"
  using assms unfolding coverage_from_rows_eq by (auto split: option.splits)

lemma first_seen_distinct: "distinct xs \<Longrightarrow> first_seen xs = xs"
  by (simp add: distinct_remdups_id first_seen_def)

lemma first_seen_props: "distinct (first_seen xs)" "set (first_seen xs) = set xs"
  by (simp_all add: first_seen_def)

section \<open>The text fallback\<close>

lemma cr_match_at_start:
  "cr_match_at X s i = Some (e, k) \<Longrightarrow> char_at s i (lit ''Cc'')"
  by (auto simp: cr_match_at_def split: if_splits)

lemma cr_match_at_bounds:
  "cr_match_at X s i = Some (e, k) \<Longrightarrow> i + 3 \<le> e \<and> e \<le> length s \<and> e \<le> i + 6"
  by (auto simp: cr_match_at_def Let_def char_at_def split: if_splits)

lemma cr_match_at_inside:
  assumes "cr_match_at X s i = Some (e, k)" "i < j" "j < e"
  shows "\<not> char_at s j (lit ''Cc'')"
proof -
  define a :: nat where "a = (if char_at s (i + 2) (lit ''-_ '') then 1 else 0)"
  define z :: nat where "z = (if char_at s (i + 2 + a) (lit ''0'') then 1 else 0)"
  from assms(1) have R: "s ! (i + 1) \<in> set (lit ''Rr'')"
    by (auto simp: cr_match_at_def char_at_def split: if_splits)
  have A: "a = 1 \<Longrightarrow> s ! (i + 2) \<in> set (lit ''-_ '')"
    by (auto simp: a_def char_at_def split: if_splits)
  have Z: "z = 1 \<Longrightarrow> s ! (i + 2 + a) \<in> set (lit ''0'')"
    by (auto simp: z_def char_at_def split: if_splits)
  have az: "a \<le> 1" "z \<le> 1" by (auto simp: a_def z_def)
  from assms(1) have E: "(s ! (i + 2 + a + z) \<in> set (lit ''123456789'') \<and> e = i + 2 + a + z + 1)
       \<or> (s ! (i + 2 + a + z) \<in> set (lit ''1'') \<and> s ! (i + 2 + a + z + 1) \<in> set (lit ''0'')
            \<and> e = i + 2 + a + z + 2)"
    unfolding cr_match_at_def Let_def a_def z_def char_at_def
    by (auto split: if_splits)
  have D: "c \<in> set (lit ''Rr-_ 0123456789'') \<Longrightarrow> c \<notin> set (lit ''Cc'')" for c
    by (auto simp: lit_def ch_def)
  have sub: "set (lit ''Rr'') \<subseteq> set (lit ''Rr-_ 0123456789'')"
    "set (lit ''-_ '') \<subseteq> set (lit ''Rr-_ 0123456789'')"
    "set (lit ''0'') \<subseteq> set (lit ''Rr-_ 0123456789'')"
    "set (lit ''1'') \<subseteq> set (lit ''Rr-_ 0123456789'')"
    "set (lit ''123456789'') \<subseteq> set (lit ''Rr-_ 0123456789'')"
    by (auto simp: lit_def)
  have "e \<le> i + 2 + a + z + 2" using E by auto
  then consider "j = i + 1" | "j = i + 2" "a = 1" | "j = i + 2 + a" "z = 1"
    | "j = i + 2 + a + z" | "j = i + 2 + a + z + 1" "e = i + 2 + a + z + 2"
    using assms(2,3) az E by arith
  then have "s ! j \<in> set (lit ''Rr-_ 0123456789'')"
  proof cases
    case 1 then show ?thesis using R sub by auto
  next
    case 2 then show ?thesis using A sub by auto
  next
    case 3 then show ?thesis using Z sub by auto
  next
    case 4 then show ?thesis using E sub by auto
  next
    case 5 then show ?thesis using E sub by auto
  qed
  then show ?thesis using D by (auto simp: char_at_def)
qed

lemma cr_scan_complete:
  "length s - i \<le> fuel \<Longrightarrow>
   set (cr_scan X fuel s i) = {k. \<exists>j e. i \<le> j \<and> cr_match_at X s j = Some (e, k)}"
proof (induction X fuel s i rule: cr_scan.induct)
  case (1 X s i)
  then have "cr_match_at X s j = None" if "i \<le> j" for j
    using that by (auto simp: cr_match_at_def char_at_def)
  then show ?case by auto
next
  case (2 X fuel s i)
  show ?case
  proof (cases "cr_match_at X s i")
    case None
    have "set (cr_scan X fuel s (i + 1)) = {k. \<exists>j e. i + 1 \<le> j \<and> cr_match_at X s j = Some (e, k)}"
      using 2 None by auto
    moreover have "(\<exists>j e. i \<le> j \<and> cr_match_at X s j = Some (e, k))
                   = (\<exists>j e. i + 1 \<le> j \<and> cr_match_at X s j = Some (e, k))" for k
      using None by (metis Suc_eq_plus1 Suc_leI le_neq_implies_less option.distinct(1) le_trans le_add1)
    ultimately show ?thesis using None by simp
  next
    case (Some m)
    obtain e k where m: "m = (e, k)" by (cases m)
    have b: "i + 3 \<le> e" "e \<le> length s" using cr_match_at_bounds Some m by auto
    have "set (cr_scan X (fuel - (e - i - 1)) s e)
          = {k. \<exists>j e'. e \<le> j \<and> cr_match_at X s j = Some (e', k)}"
      using 2(2)[OF Some m[symmetric]] 2(3) b by auto
    moreover have "(\<exists>j e'. i \<le> j \<and> cr_match_at X s j = Some (e', k'))
          = (k' = k \<or> (\<exists>j e'. e \<le> j \<and> cr_match_at X s j = Some (e', k')))" for k'
    proof
      assume "\<exists>j e'. i \<le> j \<and> cr_match_at X s j = Some (e', k')"
      then obtain j e' where j: "i \<le> j" "cr_match_at X s j = Some (e', k')" by blast
      show "k' = k \<or> (\<exists>j e'. e \<le> j \<and> cr_match_at X s j = Some (e', k'))"
      proof (cases "j = i")
        case True then show ?thesis using j Some m by simp
      next
        case False
        then have "i < j" using j by simp
        then have "\<not> j < e"
          using cr_match_at_inside[of X s i e k j] cr_match_at_start[OF j(2)] Some m by auto
        then show ?thesis using j by auto
      qed
    next
      assume "k' = k \<or> (\<exists>j e'. e \<le> j \<and> cr_match_at X s j = Some (e', k'))"
      then show "\<exists>j e'. i \<le> j \<and> cr_match_at X s j = Some (e', k')"
        using Some m b by (metis le_refl le_trans le_add1)
    qed
    ultimately show ?thesis using Some m by auto
  qed
qed

lemma cr_finditer_complete:
  "set (cr_finditer X s) = {k. \<exists>i e. cr_match_at X s i = Some (e, k)}"
  unfolding cr_finditer_def using cr_scan_complete[of s 0 "length s" X] by simp

lemma letter_not_cr: "l \<in> set LETTERS \<Longrightarrow> l \<noteq> lit ''CR'' @ x"
  by (auto simp: LETTERS_def lit_def)

lemma letter_hits:
  assumes "l \<in> set LETTERS"
  shows "l \<in> row_hits X txf tgf row \<longleftrightarrow> l \<in> row_tags X tgf row"
proof -
  have "l \<notin> cr_of_tag X t" for t
    using norm_cr_form[of X t l] letter_not_cr[OF assms] by (auto simp: cr_of_tag_iff)
  moreover have "l \<notin> (\<lambda>k. lit ''CR'' @ str_nat k) ` A" for A
    using letter_not_cr[OF assms] by auto
  ultimately show ?thesis
    using assms unfolding row_hits_def by (auto split: option.splits)
qed

text \<open>A match at an occurrence of the pattern between two places that are not inside a word.\<close>

lemma char_at_shift: "char_at (pre @ xs) (length pre + j) S = char_at xs j S"
  by (simp add: char_at_def nth_append)

lemma nth_shift: "(pre @ xs) ! (length pre + j) = xs ! j"
  by (simp add: nth_append)

lemma at_boundary_shift:
  "0 < j \<Longrightarrow> at_boundary X (pre @ xs) (length pre + j) = at_boundary X xs j"
proof -
  assume "0 < j"
  then obtain m where j: "j = Suc m" by (cases j) auto
  show ?thesis unfolding j at_boundary_def by (simp add: nth_append)
qed

lemma at_boundary_shift0:
  assumes "pre = [] \<or> \<not> is_word X (last pre)"
  shows "at_boundary X (pre @ xs) (length pre) = at_boundary X xs 0"
proof (cases pre rule: rev_cases)
  case Nil
  then show ?thesis by simp
next
  case (snoc ys y)
  then have "\<not> is_word X y" using assms by simp
  then show ?thesis using snoc by (simp add: at_boundary_def nth_append)
qed

lemma cr_match_at_prefix:
  assumes "0 < i \<or> pre = [] \<or> \<not> is_word X (last pre)"
  shows "cr_match_at X (pre @ xs) (length pre + i)
         = map_option (\<lambda>(e, k). (length pre + e, k)) (cr_match_at X xs i)"
proof -
  let ?n = "length pre"
  define P1 where "P1 = (if char_at xs (i + 2) (lit ''-_ '') then i + 2 + 1 else i + 2)"
  define P2 where "P2 = (if char_at xs P1 (lit ''0'') then P1 + 1 else P1)"
  have A: "(if char_at (pre @ xs) (?n + i + 2) (lit ''-_ '')
            then ?n + i + 2 + 1 else ?n + i + 2) = ?n + P1"
    using char_at_shift[of pre xs "i + 2"] by (simp add: P1_def add.assoc)
  have B: "(if char_at (pre @ xs) (?n + P1) (lit ''0'') then ?n + P1 + 1 else ?n + P1) = ?n + P2"
    by (simp add: P2_def char_at_shift)
  have b0: "at_boundary X (pre @ xs) (?n + i) = at_boundary X xs i"
  proof (cases "0 < i")
    case True then show ?thesis by (rule at_boundary_shift)
  next
    case False
    then show ?thesis using assms at_boundary_shift0[of pre X xs] by simp
  qed
  have s1: "char_at (pre @ xs) (?n + i + 1) S = char_at xs (i + 1) S" for S
    using char_at_shift[of pre xs "i + 1"] by (simp add: add.assoc)
  have s2: "char_at (pre @ xs) (?n + P2 + 1) S = char_at xs (P2 + 1) S" for S
    using char_at_shift[of pre xs "P2 + 1"] by (simp add: add.assoc)
  have s3: "at_boundary X (pre @ xs) (?n + P2 + 1) = at_boundary X xs (P2 + 1)"
    "at_boundary X (pre @ xs) (?n + P2 + 2) = at_boundary X xs (P2 + 2)"
    using at_boundary_shift[of "P2 + 1" X pre xs] at_boundary_shift[of "P2 + 2" X pre xs]
    by (simp_all add: add.assoc)
  have L: "cr_match_at X (pre @ xs) (?n + i) =
     (if at_boundary X xs i \<and> char_at xs i (lit ''Cc'') \<and> char_at xs (i + 1) (lit ''Rr'') then
        (if char_at xs P2 (lit ''123456789'') \<and> at_boundary X xs (P2 + 1)
            then Some (?n + P2 + 1, xs ! P2 - 48)
            else if char_at xs P2 (lit ''1'') \<and> char_at xs (P2 + 1) (lit ''0'')
                    \<and> at_boundary X xs (P2 + 2)
            then Some (?n + P2 + 2, 10)
            else None)
      else None)"
    unfolding cr_match_at_def Let_def A B
    by (simp only: b0 s1 s2 s3 char_at_shift nth_shift)
  have R: "cr_match_at X xs i =
     (if at_boundary X xs i \<and> char_at xs i (lit ''Cc'') \<and> char_at xs (i + 1) (lit ''Rr'') then
        (if char_at xs P2 (lit ''123456789'') \<and> at_boundary X xs (P2 + 1)
            then Some (P2 + 1, xs ! P2 - 48)
            else if char_at xs P2 (lit ''1'') \<and> char_at xs (P2 + 1) (lit ''0'')
                    \<and> at_boundary X xs (P2 + 2)
            then Some (P2 + 2, 10)
            else None)
      else None)"
    unfolding cr_match_at_def Let_def P2_def P1_def by (rule refl)
  show ?thesis unfolding L R by (simp add: add.assoc)
qed

lemma char_at_inside: "j < length ys \<Longrightarrow> char_at (ys @ post) j S = char_at ys j S"
  by (simp add: char_at_def nth_append)

lemma char_at_end_word:
  assumes "post = [] \<or> \<not> is_word X (hd post)" "\<forall>c \<in> set S. is_word X c"
  shows "char_at (ys @ post) (length ys) S = False"
  using assms by (cases post) (auto simp: char_at_def nth_append)

lemma char_at_end: "char_at ys (length ys) S = False"
  by (simp add: char_at_def)

lemma at_boundary_inside:
  assumes "post = [] \<or> \<not> is_word X (hd post)" "j \<le> length ys"
  shows "at_boundary X (ys @ post) j = at_boundary X ys j"
proof (cases "j < length ys")
  case True
  then show ?thesis by (cases j) (auto simp: at_boundary_def nth_append)
next
  case False
  then have j: "j = length ys" using assms(2) by simp
  show ?thesis
    using assms(1) unfolding j at_boundary_def
    by (cases post) (auto simp: nth_append)
qed

lemma cr_match_at_suffix:
  assumes post: "post = [] \<or> \<not> is_word X (hd post)"
    and m: "cr_match_at X ys 0 = Some (length ys, k)"
  shows "cr_match_at X (ys @ post) 0 = Some (length ys, k)"
proof -
  define P1 :: nat where "P1 = (if char_at ys (0 + 2) (lit ''-_ '') then 0 + 2 + 1 else 0 + 2)"
  define P2 where "P2 = (if char_at ys P1 (lit ''0'') then P1 + 1 else P1)"
  have R: "cr_match_at X ys 0 =
     (if at_boundary X ys 0 \<and> char_at ys 0 (lit ''Cc'') \<and> char_at ys (0 + 1) (lit ''Rr'') then
        (if char_at ys P2 (lit ''123456789'') \<and> at_boundary X ys (P2 + 1)
            then Some (P2 + 1, ys ! P2 - 48)
            else if char_at ys P2 (lit ''1'') \<and> char_at ys (P2 + 1) (lit ''0'')
                    \<and> at_boundary X ys (P2 + 2)
            then Some (P2 + 2, 10)
            else None)
      else None)"
    unfolding cr_match_at_def Let_def P2_def P1_def by (rule refl)
  have len: "P2 < length ys" "P2 + 1 \<le> length ys" "2 < length ys" "1 < length ys" "P1 \<le> P2" "2 \<le> P1"
    using m unfolding R by (auto simp: char_at_def P2_def P1_def split: if_splits)
  have P1': "(if char_at (ys @ post) (0 + 2) (lit ''-_ '') then 0 + 2 + 1 else 0 + 2) = P1"
    using len(3) by (simp add: P1_def char_at_inside)
  have P2': "(if char_at (ys @ post) P1 (lit ''0'') then P1 + 1 else P1) = P2"
    using len by (simp add: P2_def char_at_inside)
  have w0: "\<forall>c \<in> set (lit ''0''). is_word X c" by (simp add: is_word_def lit_def ch_def)
  have c0: "char_at (ys @ post) (P2 + 1) (lit ''0'') = char_at ys (P2 + 1) (lit ''0'')"
  proof (cases "P2 + 1 < length ys")
    case True then show ?thesis by (rule char_at_inside)
  next
    case False
    then have "P2 + 1 = length ys" using len(2) by simp
    then show ?thesis using char_at_end_word[OF post w0, of ys] char_at_end[of ys] by simp
  qed
  have b2: "at_boundary X (ys @ post) (P2 + 2) = at_boundary X ys (P2 + 2)" if "P2 + 2 \<le> length ys"
    using that by (rule at_boundary_inside[OF post])
  have L: "cr_match_at X (ys @ post) 0 =
     (if at_boundary X ys 0 \<and> char_at ys 0 (lit ''Cc'') \<and> char_at ys (0 + 1) (lit ''Rr'') then
        (if char_at ys P2 (lit ''123456789'') \<and> at_boundary X ys (P2 + 1)
            then Some (P2 + 1, ys ! P2 - 48)
            else if char_at ys P2 (lit ''1'') \<and> char_at ys (P2 + 1) (lit ''0'')
                    \<and> at_boundary X (ys @ post) (P2 + 2)
            then Some (P2 + 2, 10)
            else None)
      else None)"
  proof -
    have e0: "char_at (ys @ post) 0 S = char_at ys 0 S" for S
      using len(4) by (intro char_at_inside) auto
    have e1: "char_at (ys @ post) (0 + 1) S = char_at ys (0 + 1) S" for S
      using len(4) by (intro char_at_inside) simp
    have e2: "char_at (ys @ post) P2 S = char_at ys P2 S" for S
      using len(1) by (rule char_at_inside)
    have n2: "(ys @ post) ! P2 = ys ! P2" using len(1) by (simp add: nth_append)
    have b0: "at_boundary X (ys @ post) 0 = at_boundary X ys 0"
      by (rule at_boundary_inside[OF post]) simp
    have b1: "at_boundary X (ys @ post) (P2 + 1) = at_boundary X ys (P2 + 1)"
      by (rule at_boundary_inside[OF post]) (rule len(2))
    show ?thesis
      unfolding cr_match_at_def Let_def P1' P2' e0 e1 e2 n2 c0 b0 b1
      by simp
  qed
  show ?thesis
    using m len b2 unfolding L R
    by (auto split: if_splits simp: char_at_def)
qed

lemma cr_match_at_cores:
  "\<forall>c \<in> set (lit ''Cc''). \<forall>r \<in> set (lit ''Rr''). \<forall>sep \<in> set (map lit [[], ''-'', ''_'', '' '']).
   \<forall>zero \<in> set (map lit [[], ''0'']). \<forall>k \<in> set [1..<11].
     cr_match_at X (c # r # sep @ zero @ str_nat k) 0
       = Some (length (c # r # sep @ zero @ str_nat k), k)"
  by code_simp

lemma cr_match_at_occurrence:
  assumes c: "c \<in> set (lit ''Cc'')" and r: "r \<in> set (lit ''Rr'')"
    and sep: "sep \<in> set (map lit [[], ''-'', ''_'', '' ''])" and zero: "zero \<in> set (map lit [[], ''0''])"
    and k: "1 \<le> k" "k \<le> 10"
    and pre: "pre = [] \<or> \<not> is_word X (last pre)"
    and post: "post = [] \<or> \<not> is_word X (hd post)"
  shows "cr_match_at X (pre @ c # r # sep @ zero @ str_nat k @ post) (length pre)
         = Some (length (pre @ c # r # sep @ zero @ str_nat k), k)"
proof -
  let ?ys = "c # r # sep @ zero @ str_nat k"
  have mem: "k \<in> set [1..<11]" using k by simp
  have core: "cr_match_at X ?ys 0 = Some (length ?ys, k)"
    by (rule cr_match_at_cores[rule_format, OF c r sep zero mem])
  have "cr_match_at X (?ys @ post) 0 = Some (length ?ys, k)"
    by (rule cr_match_at_suffix[OF post core])
  then have "cr_match_at X (pre @ ?ys @ post) (length pre + 0) = Some (length pre + length ?ys, k)"
    using pre by (subst cr_match_at_prefix) simp_all
  then show ?thesis by simp
qed

lemma cr_finditer_occurrence:
  assumes "c \<in> set (lit ''Cc'')" "r \<in> set (lit ''Rr'')"
    "sep \<in> set (map lit [[], ''-'', ''_'', '' ''])" "zero \<in> set (map lit [[], ''0''])"
    "1 \<le> k" "k \<le> 10"
    "pre = [] \<or> \<not> is_word X (last pre)" "post = [] \<or> \<not> is_word X (hd post)"
  shows "k \<in> set (cr_finditer X (pre @ c # r # sep @ zero @ str_nat k @ post))"
  unfolding cr_finditer_complete using cr_match_at_occurrence[OF assms] by blast

text \<open>A match needs a place that is not inside a word on both of its sides.\<close>

lemma cr_match_at_boundaries:
  assumes "cr_match_at X s i = Some (e, k)"
  shows "at_boundary X s i \<and> at_boundary X s e"
  using assms unfolding cr_match_at_def Let_def by (auto split: if_splits)

lemma enumerate_mem: "i < length rs \<Longrightarrow> (n + i, rs ! i) \<in> set (enumerate n rs)"
  by (auto simp: in_set_enumerate_eq)

lemma recorded_under_hit:
  assumes "i < length rs" "c \<in> row_hits X (txt_col X rs) (tag_cols X rs) (rs ! i)"
  shows "row_qid (id_col X rs) (Suc i) (rs ! i) \<in> set (matching_ids X rs c)"
  using enumerate_mem[OF assms(1), of 1] assms(2) unfolding matching_ids_def by force

lemma row_hits_REQS: "c \<in> row_hits X txf tgf row \<Longrightarrow> c \<in> set REQS"
  unfolding row_hits_def
  by (auto simp: cr_of_tag_iff split: option.splits
      dest: norm_cr_REQS REQS_letters cr_finditer_range intro: REQS_CR)

section \<open>The loop of the engine\<close>

lemma dom_bump: "dom (bump q C cov) = dom cov"
  by (auto simp: bump_def dom_def split: if_splits)

lemma bump_empty: "bump q {} cov = cov"
  by (simp add: bump_def)

lemma hit_bump: "r \<in> dom cov \<Longrightarrow> hit q r cov = Inr (bump q {r} cov)"
  by (auto simp: hit_def bump_def fun_eq_iff split: option.splits)

lemma bump_insert: "r \<notin> C \<Longrightarrow> bump q C (bump q {r} cov) = bump q (insert r C) cov"
  by (auto simp: bump_def fun_eq_iff)

lemma for_each_hit:
  "distinct xs \<Longrightarrow> set xs \<subseteq> dom cov \<Longrightarrow> for_each (hit q) xs cov = Inr (bump q (set xs) cov)"
proof (induction xs arbitrary: cov)
  case Nil
  then show ?case by (simp add: bump_empty)
next
  case (Cons x xs)
  then have "for_each (hit q) xs (bump q {x} cov) = Inr (bump q (set xs) (bump q {x} cov))"
    by (intro Cons.IH) (auto simp: dom_bump)
  then show ?case using Cons.prems by (simp add: hit_bump bump_insert)
qed

lemma distinct_REQS: "distinct REQS"
  unfolding REQS_eval by code_simp

lemma matched_props:
  "distinct (sort (filter P REQS))" "set (sort (filter P REQS)) = {r \<in> set REQS. P r}"
  using distinct_REQS by auto

lemma engine_row_ok:
  assumes "row_ok X idcol tagcol evcol row" "dom (st_coverage st) = set REQS"
  shows "engine_row X ord idcol tagcol evcol row st
         = Inr \<lparr>st_coverage = bump (engine_qid X idcol row)
                               {r \<in> set REQS. r \<in> engine_tags X tagcol row} (st_coverage st),
                st_missing_ev = st_missing_ev st @
                   (if lacks_evidence X tagcol evcol row then [gap_entry X ord idcol tagcol row] else []),
                st_total = st_total st + 1\<rparr>"
proof -
  obtain v where v: "row_get_default row idcol = Some v"
    using assms(1) by (auto simp: row_ok_def)
  have q: "engine_qid X idcol row = strip X v" by (simp add: engine_qid_def v)
  let ?tags = "norm_tags X (row_get_default row tagcol)"
  have h: "for_each (hit (strip X v)) (sort (filter (\<lambda>r. r \<in> ?tags) REQS)) (st_coverage st)
           = Inr (bump (strip X v) {r \<in> set REQS. r \<in> ?tags} (st_coverage st))"
    using for_each_hit[of "sort (filter (\<lambda>r. r \<in> ?tags) REQS)" "st_coverage st" "strip X v"]
      assms(2) matched_props[of "\<lambda>r. r \<in> ?tags"] by auto
  show ?thesis
  proof (cases "lit ''EVIDENCE_REQUIRED'' \<in> ?tags")
    case False
    then show ?thesis
      unfolding engine_row_def Let_def and_then_def
      by (simp add: v h q engine_tags_def lacks_evidence_def)
  next
    case True
    then obtain e where e: "ev_cell evcol row = Some e"
      using assms(1) by (auto simp: row_ok_def engine_tags_def)
    show ?thesis
      unfolding engine_row_def Let_def and_then_def
      using True by (simp add: v h q e engine_tags_def lacks_evidence_def gap_entry_def)
  qed
qed

lemma engine_row_not_ok:
  assumes "\<not> row_ok X idcol tagcol evcol row" "dom (st_coverage st) = set REQS"
  shows "engine_row X ord idcol tagcol evcol row st = Inl AttributeError"
proof (cases "row_get_default row idcol")
  case None
  then show ?thesis by (simp add: engine_row_def)
next
  case (Some v)
  let ?tags = "norm_tags X (row_get_default row tagcol)"
  have h: "for_each (hit (strip X v)) (sort (filter (\<lambda>r. r \<in> ?tags) REQS)) (st_coverage st)
           = Inr (bump (strip X v) {r \<in> set REQS. r \<in> ?tags} (st_coverage st))"
    using for_each_hit[of "sort (filter (\<lambda>r. r \<in> ?tags) REQS)" "st_coverage st" "strip X v"]
      assms(2) matched_props[of "\<lambda>r. r \<in> ?tags"] by auto
  from assms(1) Some have "lit ''EVIDENCE_REQUIRED'' \<in> ?tags" "ev_cell evcol row = None"
    by (auto simp: row_ok_def engine_tags_def)
  then show ?thesis
    unfolding engine_row_def Let_def and_then_def by (simp add: Some h)
qed

lemma entry_eta: "\<lparr>count = count e, ids = ids e\<rparr> = (e::entry)"
  by (cases e) simp

lemma engine_loop_gen:
  assumes "list_all (row_ok X idcol tagcol evcol) rs" "dom (st_coverage st) = set REQS"
  shows "for_each (engine_row X ord idcol tagcol evcol) rs st
         = Inr \<lparr>st_coverage = (\<lambda>r. if r \<in> set REQS then
                    map_option (\<lambda>e. \<lparr>count = count e + length (filter (\<lambda>row. r \<in> engine_tags X tagcol row) rs),
                          ids = ids e @ map (engine_qid X idcol)
                                  (filter (\<lambda>row. r \<in> engine_tags X tagcol row) rs)\<rparr>)
                      (st_coverage st r)
                  else st_coverage st r),
                st_missing_ev = st_missing_ev st @
                   map (gap_entry X ord idcol tagcol) (filter (lacks_evidence X tagcol evcol) rs),
                st_total = st_total st + length rs\<rparr>"
  using assms
proof (induction rs arbitrary: st)
  case Nil
  have "(\<lambda>r. if r \<in> set REQS then map_option (\<lambda>e. \<lparr>count = count e, ids = ids e\<rparr>) (st_coverage st r)
             else st_coverage st r) = st_coverage st"
    by (auto simp: fun_eq_iff entry_eta option.map_ident)
  then show ?case by (cases st) (simp cong: if_cong)
next
  case (Cons row rs)
  let ?st1 = "\<lparr>st_coverage = bump (engine_qid X idcol row)
                               {r \<in> set REQS. r \<in> engine_tags X tagcol row} (st_coverage st),
                st_missing_ev = st_missing_ev st @
                   (if lacks_evidence X tagcol evcol row then [gap_entry X ord idcol tagcol row] else []),
                st_total = st_total st + 1\<rparr>"
  have r: "engine_row X ord idcol tagcol evcol row st = Inr ?st1"
    using Cons.prems by (intro engine_row_ok) simp_all
  have d: "dom (st_coverage ?st1) = set REQS" using Cons.prems by (simp add: dom_bump)
  have ok: "list_all (row_ok X idcol tagcol evcol) rs" using Cons.prems by simp
  show ?case
    unfolding for_each.simps r sum.case Cons.IH[OF ok d]
    by (auto simp: fun_eq_iff bump_def option.map_comp comp_def intro!: option.map_cong)
qed

lemma engine_loop_fail:
  assumes "\<not> list_all (row_ok X idcol tagcol evcol) rs" "dom (st_coverage st) = set REQS"
  shows "for_each (engine_row X ord idcol tagcol evcol) rs st = Inl AttributeError"
  using assms
proof (induction rs arbitrary: st)
  case Nil
  then show ?case by simp
next
  case (Cons row rs)
  show ?case
  proof (cases "row_ok X idcol tagcol evcol row")
    case False
    then show ?thesis using Cons.prems by (simp add: engine_row_not_ok)
  next
    case True
    then have "for_each (engine_row X ord idcol tagcol evcol) rs
                 \<lparr>st_coverage = bump (engine_qid X idcol row)
                               {r \<in> set REQS. r \<in> engine_tags X tagcol row} (st_coverage st),
                st_missing_ev = st_missing_ev st @
                   (if lacks_evidence X tagcol evcol row then [gap_entry X ord idcol tagcol row] else []),
                st_total = st_total st + 1\<rparr> = Inl AttributeError"
      using Cons.prems by (intro Cons.IH) (simp_all add: dom_bump)
    then show ?thesis using True Cons.prems by (simp add: engine_row_ok)
  qed
qed

lemma init_state_dom: "dom (st_coverage init_state) = set REQS"
  by (auto simp: init_state_def dom_map_of_conv_image_fst image_iff)

lemma init_state_REQS: "r \<in> set REQS \<Longrightarrow> st_coverage init_state r = Some \<lparr>count = 0, ids = []\<rparr>"
  unfolding init_state_def by (simp add: map_of_map_restrict)

lemma engine_loop_ok:
  assumes "list_all (row_ok X idcol tagcol evcol) rs"
  shows "engine_loop X ord idcol tagcol evcol rs
         = Inr \<lparr>st_coverage = (\<lambda>r. if r \<in> set REQS then
                    Some \<lparr>count = length (filter (\<lambda>row. r \<in> engine_tags X tagcol row) rs),
                          ids = map (engine_qid X idcol)
                                  (filter (\<lambda>row. r \<in> engine_tags X tagcol row) rs)\<rparr>
                  else None),
                st_missing_ev = map (gap_entry X ord idcol tagcol) (filter (lacks_evidence X tagcol evcol) rs),
                st_total = length rs\<rparr>"
proof -
  have n: "st_coverage init_state r = None" if "r \<notin> set REQS" for r
    using init_state_dom that by (auto simp: dom_def)
  have m: "st_missing_ev init_state = []" "st_total init_state = 0" by (simp_all add: init_state_def)
  show ?thesis
    unfolding engine_loop_def engine_loop_gen[OF assms init_state_dom]
    by (auto simp: fun_eq_iff init_state_REQS n m)
qed

lemma engine_loop_not_ok:
  "\<not> list_all (row_ok X idcol tagcol evcol) rs \<Longrightarrow>
   engine_loop X ord idcol tagcol evcol rs = Inl AttributeError"
  unfolding engine_loop_def by (rule engine_loop_fail[OF _ init_state_dom])

section \<open>The main program of the engine\<close>

lemma collect_map: "(\<And>x. x \<in> set xs \<Longrightarrow> f x = Inr (g x)) \<Longrightarrow> collect f xs = Inr (map g xs)"
  by (induction xs) auto

lemma engine_main_missing: "\<not> questions_exists env \<Longrightarrow> engine_main X ord env = (Exit 2, [])"
  by (simp add: engine_main_def)

lemma engine_main_columns:
  "questions_exists env \<Longrightarrow> idcol_of X env = None \<or> tagcol_of X env = None \<Longrightarrow>
   engine_main X ord env = (Exit 3, [])"
  by (auto simp: engine_main_def split: option.splits)

lemma engine_main_crash:
  assumes "questions_exists env" "idcol_of X env = Some idcol" "tagcol_of X env = Some tagcol"
    "\<not> list_all (row_ok X idcol tagcol (evcol_of X env)) (rows env)"
  shows "engine_main X ord env = (Traceback AttributeError, [])"
  using assms by (simp add: engine_main_def engine_loop_not_ok and_then_def)

lemma engine_main_ok:
  assumes "questions_exists env" "idcol_of X env = Some idcol" "tagcol_of X env = Some tagcol"
    "list_all (row_ok X idcol tagcol (evcol_of X env)) (rows env)"
  shows "engine_main X ord env
         = (Exit 0,
            [Phase2Coverage
               (map (\<lambda>r. \<lparr>Requirement = r,
                          Covered = (if engine_ids X idcol tagcol (rows env) r \<noteq> [] then lit ''Y'' else lit ''N''),
                          Count = length (engine_ids X idcol tagcol (rows env) r),
                          QuestionIDs = join (lit '';'') (engine_ids X idcol tagcol (rows env) r)\<rparr>) REQS),
             Phase2MissingEvidence
               (map (gap_entry X ord idcol tagcol)
                  (filter (lacks_evidence X tagcol (evcol_of X env)) (rows env))),
             Phase2Summary
               \<lparr>total_questions = length (rows env),
                requirements = map (\<lambda>r. (r, length (engine_ids X idcol tagcol (rows env) r))) REQS,
                missing_evidence_count =
                  length (filter (lacks_evidence X tagcol (evcol_of X env)) (rows env))\<rparr>])"
proof -
  let ?cov = "\<lambda>r. if r \<in> set REQS then
                    Some \<lparr>count = length (filter (\<lambda>row. r \<in> engine_tags X tagcol row) (rows env)),
                          ids = map (engine_qid X idcol)
                                  (filter (\<lambda>row. r \<in> engine_tags X tagcol row) (rows env))\<rparr>
                  else None"
  have 1: "collect (cov_row_of ?cov) REQS
           = Inr (map (\<lambda>r. \<lparr>Requirement = r,
                          Covered = (if engine_ids X idcol tagcol (rows env) r \<noteq> [] then lit ''Y'' else lit ''N''),
                          Count = length (engine_ids X idcol tagcol (rows env) r),
                          QuestionIDs = join (lit '';'') (engine_ids X idcol tagcol (rows env) r)\<rparr>) REQS)"
    by (rule collect_map) (auto simp: cov_row_of_def engine_ids_def)
  have 2: "collect (count_of ?cov) REQS
           = Inr (map (\<lambda>r. (r, length (engine_ids X idcol tagcol (rows env) r))) REQS)"
    by (rule collect_map) (auto simp: count_of_def engine_ids_def)
  show ?thesis
    using assms(1)
    by (simp add: engine_main_def assms(2,3) engine_loop_ok[OF assms(4)] and_then_def
        engine_reports_def 1 2)
qed

lemma engine_main_exit0:
  assumes "engine_main X ord env = (Exit 0, arts)"
  obtains idcol tagcol where "questions_exists env" "idcol_of X env = Some idcol"
    "tagcol_of X env = Some tagcol" "list_all (row_ok X idcol tagcol (evcol_of X env)) (rows env)"
proof (cases "questions_exists env")
  case False
  then show ?thesis using assms by (simp add: engine_main_missing)
next
  case True
  show ?thesis
  proof (cases "idcol_of X env = None \<or> tagcol_of X env = None")
    case True
    then show ?thesis using assms \<open>questions_exists env\<close> by (simp add: engine_main_columns)
  next
    case False
    then obtain idcol tagcol where c: "idcol_of X env = Some idcol" "tagcol_of X env = Some tagcol"
      by auto
    have "list_all (row_ok X idcol tagcol (evcol_of X env)) (rows env)"
      using assms engine_main_crash[OF True c, of ord] by auto
    then show ?thesis using that True c by blast
  qed
qed

section \<open>First-seen order\<close>

lemma coverage_error_examples:
  "coverage_error X ex_rows = None"
  "coverage_error X ex_long_first_rows = Some AttributeError"
  "coverage_error superscripts ex_superscript_rows = Some ValueError"
  by code_simp+

text \<open>
  Claim C8. Whenever \<open>coverage_from_rows\<close> returns, the id list of every requirement
  code is the sequence of the ids of the matching rows, in the order of the input, each
  id kept at its first occurrence only: the list has no duplicate, and when the ids of
  the matching rows are pairwise distinct it is exactly the input order filtered to the
  matching rows. A row counts once for a code, however many tag columns, tags or text
  matches give the code (\<open>row_hits\<close> is a set). The function returns unless the first
  row has cells beyond the header (\<^verbatim>\<open>AttributeError\<close>) or \<^verbatim>\<open>int\<close> raises on a tag
  (\<^verbatim>\<open>ValueError\<close>); then there is no list.
\<close>

theorem coverage_ids_first_seen:
  assumes "r \<in> set REQS"
  shows "(\<forall>cov. coverage_from_rows X rs = Inr cov \<longrightarrow>
            (\<exists>qs. cov r = Some qs
               \<and> qs = first_seen (matching_ids X rs r)
               \<and> distinct qs \<and> set qs = set (matching_ids X rs r)
               \<and> (distinct (matching_ids X rs r) \<longrightarrow> qs = matching_ids X rs r)))
       \<and> (coverage_error X rs = None \<longrightarrow> (\<exists>cov. coverage_from_rows X rs = Inr cov))
       \<and> (\<forall>e. coverage_error X rs = Some e \<longrightarrow> coverage_from_rows X rs = Inl e)"
  using assms
  by (auto simp: coverage_from_rows_eq first_seen_distinct first_seen_props split: option.splits)

theorem coverage_ids_first_seen_witness:
  "lit ''CR1'' \<in> set REQS \<and> lit ''CR10'' \<in> set REQS
   \<and> coverage_error plain ex_rows = None
   \<and> (\<exists>cov. coverage_from_rows plain ex_rows = Inr cov
         \<and> cov (lit ''CR1'') = Some [Str (lit ''Q2''), Str (lit ''Q1'')]
         \<and> cov (lit ''CR10'') = Some [Str (lit ''Q1'')])
   \<and> coverage_error plain ex_long_first_rows = Some AttributeError
   \<and> coverage_from_rows plain ex_long_first_rows = Inl AttributeError
   \<and> coverage_error superscripts ex_superscript_rows = Some ValueError
   \<and> coverage_from_rows superscripts ex_superscript_rows = Inl ValueError"
proof -
  have h: "lit ''CR1'' \<in> set REQS" "lit ''CR10'' \<in> set REQS" by code_simp+
  have m: "first_seen (matching_ids plain ex_rows (lit ''CR1'')) = [Str (lit ''Q2''), Str (lit ''Q1'')]"
    "first_seen (matching_ids plain ex_rows (lit ''CR10'')) = [Str (lit ''Q1'')]"
    by code_simp+
  note e = coverage_error_examples(1,2)[of plain]
  note t1 = coverage_ids_first_seen[OF h(1), of plain ex_rows]
  note t2 = coverage_ids_first_seen[OF h(2), of plain ex_rows]
  from t1 e(1) obtain cov where cov: "coverage_from_rows plain ex_rows = Inr cov" by blast
  have c1: "cov (lit ''CR1'') = Some [Str (lit ''Q2''), Str (lit ''Q1'')]"
    using t1 cov m(1) by auto
  have c2: "cov (lit ''CR10'') = Some [Str (lit ''Q1'')]"
    using t2 cov m(2) by auto
  have a: "coverage_from_rows plain ex_long_first_rows = Inl AttributeError"
    using coverage_ids_first_seen[OF h(1), of plain ex_long_first_rows] e(2) by blast
  have v: "coverage_from_rows superscripts ex_superscript_rows = Inl ValueError"
    using coverage_ids_first_seen[OF h(1), of superscripts ex_superscript_rows]
      coverage_error_examples(3) by blast
  show ?thesis using h e(1,2) coverage_error_examples(3) cov c1 c2 a v by blast
qed

section \<open>The coverage table of phase 0\<close>

lemma collect_all2: "collect f xs = Inr ys \<Longrightarrow> list_all2 (\<lambda>x y. f x = Inr y) xs ys"
  by (induction xs arbitrary: ys) (auto split: sum.splits)


lemma collect_total: "(\<And>x. x \<in> set xs \<Longrightarrow> \<exists>y. f x = Inr y) \<Longrightarrow> \<exists>ys. collect f xs = Inr ys"
proof (induction xs)
  case Nil
  then show ?case by simp
next
  case (Cons x xs)
  then obtain y ys where "f x = Inr y" "collect f xs = Inr ys" by (meson list.set_intros)
  then show ?case by simp
qed

lemma strings_of_map: "strings_of (map Str l) = Inr l"
  by (induction l) auto

lemma strings_of_Inr: "strings_of qs = Inr l \<Longrightarrow> qs = map Str l"
  by (induction qs arbitrary: l rule: strings_of.induct) (auto split: sum.splits)

lemma strings_of_raises: "strings_of qs = Inl e \<Longrightarrow> e = TypeError"
  by (induction qs arbitrary: e rule: strings_of.induct) (auto split: sum.splits)

lemma strings_of_Lst: "Lst l \<in> set qs \<Longrightarrow> strings_of qs = Inl TypeError"
proof -
  assume a: "Lst l \<in> set qs"
  have "strings_of qs \<noteq> Inr m" for m using a strings_of_Inr[of qs m] by auto
  then show ?thesis using strings_of_raises[of qs] by (cases "strings_of qs") auto
qed

lemma coverage_line_Inr:
  assumes "coverage_line cov req = Inr row"
  shows "\<exists>l. cov_get cov req = map Str l
        \<and> Requirement row = req
        \<and> Covered row = (if l \<noteq> [] then lit ''Y'' else lit ''N'')
        \<and> Count row = length l
        \<and> QuestionIDs row = join (lit '';'') l
        \<and> ProposedAddIfGap row = (if l \<noteq> [] then [] else lit ''ADD_'' @ req @ lit ''_QUESTION'')"
proof (cases "strings_of (cov_get cov req)")
  case (Inl e)
  then show ?thesis using assms by (simp add: coverage_line_def Let_def)
next
  case (Inr l)
  then have "cov_get cov req = map Str l" by (rule strings_of_Inr)
  then show ?thesis using assms Inr by (intro exI[of _ l]) (auto simp: coverage_line_def Let_def)
qed

lemma coverage_line_total:
  "cov_get cov req = map Str l \<Longrightarrow> \<exists>row. coverage_line cov req = Inr row"
  by (simp add: coverage_line_def Let_def strings_of_map)



lemma write_coverage_all2:
  "write_coverage cov = Inr table \<Longrightarrow> list_all2 (\<lambda>x y. coverage_line cov x = Inr y) REQS table"
  by (simp add: write_coverage_def collect_all2)

lemma write_coverage_Requirement:
  assumes "write_coverage cov = Inr table"
  shows "map Requirement table = REQS"
proof -
  have "list_all2 (\<lambda>x y. x = Requirement y) REQS table"
    using write_coverage_all2[OF assms]
    by (rule list_all2_mono) (auto dest: coverage_line_Inr)
  then show ?thesis by (induction rule: list_all2_induct) auto
qed

lemma write_coverage_row:
  assumes "write_coverage cov = Inr table" "row \<in> set table"
  shows "coverage_line cov (Requirement row) = Inr row \<and> Requirement row \<in> set REQS"
proof -
  from assms(2) obtain i where i: "i < length table" "row = table ! i"
    by (auto simp: in_set_conv_nth)
  have a: "length REQS = length table" "coverage_line cov (REQS ! i) = Inr row"
    using write_coverage_all2[OF assms(1)] i by (auto simp: list_all2_conv_all_nth)
  then have "Requirement row = REQS ! i" by (auto dest: coverage_line_Inr)
  then show ?thesis using a i by simp
qed


lemma write_coverage_total:
  assumes "\<And>r. r \<in> set REQS \<Longrightarrow> \<exists>l. cov_get cov r = map Str l"
  shows "\<exists>table. write_coverage cov = Inr table"
  unfolding write_coverage_def
proof (rule collect_total)
  fix r assume "r \<in> set REQS"
  then obtain l where "cov_get cov r = map Str l" using assms by blast
  then show "\<exists>y. coverage_line cov r = Inr y" by (rule coverage_line_total)
qed


section \<open>Ids that are not empty\<close>





lemma matching_ids_mem:
  assumes "q \<in> set (matching_ids X rs r)"
  shows "\<exists>i. i < length rs \<and> r \<in> row_hits X (txt_col X rs) (tag_cols X rs) (rs ! i)
            \<and> q = row_qid (id_col X rs) (Suc i) (rs ! i)"
proof -
  from assms obtain j row where j: "(j, row) \<in> set (enumerate 1 rs)"
    "r \<in> row_hits X (txt_col X rs) (tag_cols X rs) row" "q = row_qid (id_col X rs) j row"
    unfolding matching_ids_def by auto
  from j(1) have "1 \<le> j" "j < length rs + 1" "row = rs ! (j - 1)"
    by (auto simp: in_set_enumerate_eq)
  then show ?thesis using j(2,3) by (intro exI[of _ "j - 1"]) auto
qed




section \<open>Text matches and letters\<close>

lemma text_recorded:
  assumes "coverage_from_rows X rs = Inr cov" "i < length rs"
    "row_text (txt_col X rs) (rs ! i) = Some tx" "k \<in> set (cr_finditer X tx)"
  shows "\<exists>qs. cov (lit ''CR'' @ str_nat k) = Some qs
           \<and> row_qid (id_col X rs) (Suc i) (rs ! i) \<in> set qs"
proof -
  let ?c = "lit ''CR'' @ str_nat k"
  have h: "?c \<in> row_hits X (txt_col X rs) (tag_cols X rs) (rs ! i)"
    unfolding row_hits_def using assms(3,4) by simp
  then have "row_qid (id_col X rs) (Suc i) (rs ! i) \<in> set (matching_ids X rs ?c)"
    using assms(2) by (intro recorded_under_hit)
  moreover have "?c \<in> set REQS" using h by (rule row_hits_REQS)
  ultimately show ?thesis
    using coverage_returns(2)[OF assms(1)] by (simp add: first_seen_props)
qed

lemma letter_ids:
  assumes "l \<in> set LETTERS"
  shows "matching_ids X rs l = map (\<lambda>(i, row). row_qid (id_col X rs) i row)
                  (filter (\<lambda>(i, row). l \<in> row_tags X (tag_cols X rs) row) (enumerate 1 rs))"
  unfolding matching_ids_def by (simp add: letter_hits[OF assms] cong: filter_cong)

text \<open>
  Claim C6. The text fallback records CR codes only. The scan of the text column finds
  exactly the numbers of the matches of the regular expression (at any position; matches
  cannot overlap); a match lies between two word boundaries and its number is between 1
  and 10. Every occurrence of \<open>C\<close> or \<open>c\<close>, \<open>R\<close> or \<open>r\<close>, an optional hyphen,
  underscore or space, an optional zero and the digits of a number \<open>k\<close> from 1 to 10,
  with no word character just before or just after it, is a match with the number \<open>k\<close>.
  Whenever \<open>coverage_from_rows\<close> returns, the row of a text with a match of number
  \<open>k\<close> is listed under the code \<open>CR\<close> with that number, which is never a letter code,
  and the id list of a letter is made of the rows that carry the letter as a tag token,
  whatever the text column holds.
\<close>

theorem text_fallback_cr_only:
  "set (cr_finditer X s) = {k. \<exists>i e. cr_match_at X s i = Some (e, k)}
   \<and> (\<forall>i e k. cr_match_at X s i = Some (e, k) \<longrightarrow>
         at_boundary X s i \<and> at_boundary X s e \<and> 1 \<le> k \<and> k \<le> 10)
   \<and> (\<forall>k \<in> set (cr_finditer X s). 1 \<le> k \<and> k \<le> 10
         \<and> lit ''CR'' @ str_nat k \<in> set REQS \<and> lit ''CR'' @ str_nat k \<notin> set LETTERS)
   \<and> (c \<in> set (lit ''Cc'') \<and> r \<in> set (lit ''Rr'')
        \<and> sep \<in> set (map lit [[], ''-'', ''_'', '' '']) \<and> zero \<in> set (map lit [[], ''0''])
        \<and> 1 \<le> n \<and> n \<le> 10
        \<and> (pre = [] \<or> \<not> is_word X (last pre)) \<and> (post = [] \<or> \<not> is_word X (hd post))
      \<longrightarrow> n \<in> set (cr_finditer X (pre @ c # r # sep @ zero @ str_nat n @ post)))
   \<and> (\<forall>cov. coverage_from_rows X rs = Inr cov \<longrightarrow>
         (\<forall>i tx k. i < length rs \<and> row_text (txt_col X rs) (rs ! i) = Some tx
                    \<and> k \<in> set (cr_finditer X tx) \<longrightarrow>
            (\<exists>qs. cov (lit ''CR'' @ str_nat k) = Some qs
               \<and> row_qid (id_col X rs) (Suc i) (rs ! i) \<in> set qs))
       \<and> (l \<in> set LETTERS \<longrightarrow>
             cov l = Some (first_seen
               (map (\<lambda>(i, row). row_qid (id_col X rs) i row)
                  (filter (\<lambda>(i, row). l \<in> row_tags X (tag_cols X rs) row)
                     (enumerate 1 rs))))))
   \<and> (l \<in> set LETTERS \<longrightarrow> (l \<in> row_hits X txf tgf row \<longleftrightarrow> l \<in> row_tags X tgf row))"
proof (intro conjI allI impI ballI)
  show "set (cr_finditer X s) = {k. \<exists>i e. cr_match_at X s i = Some (e, k)}"
    by (rule cr_finditer_complete)
next
  fix i e k assume m: "cr_match_at X s i = Some (e, k)"
  show "at_boundary X s i" "at_boundary X s e" using cr_match_at_boundaries[OF m] by simp_all
  show "1 \<le> k" "k \<le> 10" using cr_match_at_range[OF m] by simp_all
next
  fix k assume k: "k \<in> set (cr_finditer X s)"
  show "1 \<le> k" "k \<le> 10" using cr_finditer_range[OF k] by simp_all
  then show "lit ''CR'' @ str_nat k \<in> set REQS" by (rule REQS_CR)
  show "lit ''CR'' @ str_nat k \<notin> set LETTERS" using letter_not_cr by blast
next
  assume "c \<in> set (lit ''Cc'') \<and> r \<in> set (lit ''Rr'')
        \<and> sep \<in> set (map lit [[], ''-'', ''_'', '' '']) \<and> zero \<in> set (map lit [[], ''0''])
        \<and> 1 \<le> n \<and> n \<le> 10
        \<and> (pre = [] \<or> \<not> is_word X (last pre)) \<and> (post = [] \<or> \<not> is_word X (hd post))"
  then show "n \<in> set (cr_finditer X (pre @ c # r # sep @ zero @ str_nat n @ post))"
    by (intro cr_finditer_occurrence) simp_all
next
  fix cov i tx k
  assume "coverage_from_rows X rs = Inr cov"
    "i < length rs \<and> row_text (txt_col X rs) (rs ! i) = Some tx \<and> k \<in> set (cr_finditer X tx)"
  then show "\<exists>qs. cov (lit ''CR'' @ str_nat k) = Some qs
               \<and> row_qid (id_col X rs) (Suc i) (rs ! i) \<in> set qs"
    using text_recorded[of X rs cov i tx k] by simp
next
  fix cov
  assume c: "coverage_from_rows X rs = Inr cov" and l: "l \<in> set LETTERS"
  show "cov l = Some (first_seen
               (map (\<lambda>(i, row). row_qid (id_col X rs) i row)
                  (filter (\<lambda>(i, row). l \<in> row_tags X (tag_cols X rs) row)
                     (enumerate 1 rs))))"
    using coverage_returns(2)[OF c] REQS_letters[OF l] by (simp add: letter_ids[OF l])
next
  assume "l \<in> set LETTERS"
  then show "l \<in> row_hits X txf tgf row \<longleftrightarrow> l \<in> row_tags X tgf row" by (rule letter_hits)
qed

lemma text_fallback_examples:
  "set (cr_finditer X (lit ''Plan A: see CR-03 and CR10 for details'')) = {3, 10}"
  "cr_match_at X (lit ''Plan A: see CR-03 and CR10 for details'') 12 = Some (17, 3)"
  "row_text (txt_col X ex_text_rows) (ex_text_rows ! 0)
     = Some (lit ''Plan A: see CR-03 and CR10 for details'')"
  "coverage_error X ex_text_rows = None"
  "row_qid (id_col X ex_text_rows) (Suc 0) (ex_text_rows ! 0) = Str (lit ''Q7'')"
  "first_seen (map (\<lambda>(i, row). row_qid (id_col X ex_text_rows) i row)
             (filter (\<lambda>(i, row). lit ''A'' \<in> row_tags X (tag_cols X ex_text_rows) row)
                (enumerate 1 ex_text_rows))) = []"
  "lit ''A'' \<notin> row_tags X (tag_cols X ex_text_rows) (ex_text_rows ! 0)"
  "(case coverage_from_rows X ex_text_rows of Inl e \<Rightarrow> None
    | Inr cov \<Rightarrow> Some (cov (lit ''CR3''), cov (lit ''CR10'')))
   = Some (Some [Str (lit ''Q7'')], Some [Str (lit ''Q7'')])"
  by code_simp+

theorem text_fallback_cr_only_witness:
  "lit ''A'' \<in> set LETTERS
   \<and> set (cr_finditer plain (lit ''Plan A: see CR-03 and CR10 for details'')) = {3, 10}
   \<and> cr_match_at plain (lit ''Plan A: see CR-03 and CR10 for details'') 12 = Some (17, 3)
   \<and> at_boundary plain (lit ''Plan A: see CR-03 and CR10 for details'') 12
   \<and> at_boundary plain (lit ''Plan A: see CR-03 and CR10 for details'') 17
   \<and> 3 \<in> set (cr_finditer plain (lit ''see CR-03 and''))
   \<and> (\<exists>cov. coverage_from_rows plain ex_text_rows = Inr cov \<and> cov (lit ''A'') = Some []
         \<and> cov (lit ''CR3'') = Some [Str (lit ''Q7'')] \<and> cov (lit ''CR10'') = Some [Str (lit ''Q7'')])
   \<and> lit ''A'' \<notin> row_hits plain (txt_col plain ex_text_rows) (tag_cols plain ex_text_rows)
        (ex_text_rows ! 0)"
proof -
  let ?s = "lit ''Plan A: see CR-03 and CR10 for details''"
  note e = text_fallback_examples[of plain]
  have h: "lit ''A'' \<in> set LETTERS" by code_simp
  note t = text_fallback_cr_only[of plain ?s _ _ _ _ _ _ _ ex_text_rows "lit ''A''"]
  have b: "at_boundary plain ?s 12 \<and> at_boundary plain ?s 17"
    using t[THEN conjunct2, THEN conjunct1, rule_format, OF e(2)] by simp
  have o: "ch CHR ''C'' \<in> set (lit ''Cc'') \<and> ch CHR ''R'' \<in> set (lit ''Rr'')
        \<and> lit ''-'' \<in> set (map lit [[], ''-'', ''_'', '' '']) \<and> lit ''0'' \<in> set (map lit [[], ''0''])
        \<and> (1::nat) \<le> 3 \<and> (3::nat) \<le> 10
        \<and> (lit ''see '' = [] \<or> \<not> is_word plain (last (lit ''see '')))
        \<and> (lit '' and'' = [] \<or> \<not> is_word plain (hd (lit '' and'')))"
    by code_simp
  have w: "lit ''see '' @ ch CHR ''C'' # ch CHR ''R'' # lit ''-'' @ lit ''0'' @ str_nat 3 @ lit '' and''
           = lit ''see CR-03 and''" by code_simp
  have occ: "3 \<in> set (cr_finditer plain (lit ''see CR-03 and''))"
    using text_fallback_cr_only[of plain ?s "ch CHR ''C''" "ch CHR ''R''" "lit ''-''" "lit ''0''" 3
        "lit ''see ''" "lit '' and''", THEN conjunct2, THEN conjunct2, THEN conjunct2, THEN conjunct1] o
    unfolding w by blast
  obtain cov where cov: "coverage_from_rows plain ex_text_rows = Inr cov"
    using e(8) by (cases "coverage_from_rows plain ex_text_rows") auto
  have c: "cov (lit ''CR3'') = Some [Str (lit ''Q7'')]" "cov (lit ''CR10'') = Some [Str (lit ''Q7'')]"
    using e(8) cov by simp_all
  have a: "cov (lit ''A'') = Some []"
    using t[THEN conjunct2, THEN conjunct2, THEN conjunct2, THEN conjunct2, THEN conjunct1,
        rule_format, OF cov, THEN conjunct2] h e(6) by simp
  have n: "lit ''A'' \<notin> row_hits plain (txt_col plain ex_text_rows) (tag_cols plain ex_text_rows)
        (ex_text_rows ! 0)"
    using text_fallback_cr_only[of plain ?s _ _ _ _ _ _ _ ex_text_rows "lit ''A''"
        "txt_col plain ex_text_rows" "tag_cols plain ex_text_rows" "ex_text_rows ! 0",
        THEN conjunct2, THEN conjunct2, THEN conjunct2, THEN conjunct2, THEN conjunct2] h e(7)
    by simp
  show ?thesis using h e(1) e(2) b occ cov a c n by blast
qed

section \<open>Duplicate ids and counts\<close>






section \<open>Tag-driven matching\<close>

lemma ch_zero: "ch CHR ''0'' = 48"
  by (simp add: ch_def)

lemma decimal_zeros: "foldl (\<lambda>n c. 10 * n + (c - 48)) 0 (replicate n 48) = (0::nat)"
  by (induction n) auto

lemma decimal_padded: "1 \<le> k \<Longrightarrow> k \<le> 10 \<Longrightarrow> decimal (replicate n (ch CHR ''0'') @ str_nat k) = k"
proof -
  assume k: "1 \<le> k" "k \<le> 10"
  show ?thesis
  proof (cases "k < 10")
    case True
    then show ?thesis by (simp add: decimal_def decimal_zeros str_nat_small ch_zero)
  next
    case False
    then have "k = 10" using k by simp
    moreover have "str_nat 10 = lit ''10''" by code_simp
    ultimately show ?thesis by (simp add: decimal_def decimal_zeros lit_def ch_def)
  qed
qed

lemma str_nat_length: "1 \<le> k \<Longrightarrow> k \<le> 10 \<Longrightarrow> length (str_nat k) \<le> 2"
proof -
  assume k: "1 \<le> k" "k \<le> 10"
  have "str_nat 10 = lit ''10''" by code_simp
  then show ?thesis using k by (cases "k < 10") (auto simp: str_nat_small lit_def)
qed

lemma ascii_digits_padded:
  "1 \<le> k \<Longrightarrow> k \<le> 10 \<Longrightarrow> ascii_digits (replicate n (ch CHR ''0'') @ str_nat k)"
proof -
  assume k: "1 \<le> k" "k \<le> 10"
  have z: "list_all (\<lambda>c. 48 \<le> c \<and> c \<le> 57) (replicate n (ch CHR ''0''))"
    by (induction n) (auto simp: ch_def)
  have "str_nat 10 = lit ''10''" by code_simp
  then show ?thesis
    using k z by (cases "k < 10") (auto simp: ascii_digits_def str_nat_small lit_def ch_def)
qed

lemma ascii_digits_isdigit: "ascii_digits s \<Longrightarrow> isdigit X s"
  by (auto simp: ascii_digits_def isdigit_def is_digit_def list_all_iff)

lemma norm_cr_padded:
  assumes "upper X (filter (\<lambda>c. \<not> is_sep X c) tok) = lit ''CR'' @ replicate n (ch CHR ''0'') @ str_nat k"
    and "1 \<le> k" "k \<le> 10" "n + 2 \<le> 4300"
  shows "norm_cr X tok = Inr (Some (lit ''CR'' @ str_nat k))"
proof -
  let ?ds = "replicate n (ch CHR ''0'') @ str_nat k"
  have a: "ascii_digits ?ds" by (rule ascii_digits_padded[OF assms(2,3)])
  have l: "length ?ds \<le> 4300" using str_nat_length[OF assms(2,3)] assms(4) by simp
  have i: "py_int X ?ds = Some k" using a l by (simp add: py_int_def decimal_padded[OF assms(2,3)])
  have t: "take 2 (lit ''CR'' @ ?ds) = lit ''CR''" "drop 2 (lit ''CR'' @ ?ds) = ?ds"
    by (simp_all add: lit_def)
  show ?thesis
    unfolding norm_cr_def Let_def assms(1) t
    using i ascii_digits_isdigit[OF a, of X] assms(2,3) by simp
qed

lemma norm_cr_superscript: "norm_cr superscripts (lit ''CR'' @ [178]) = Inl ValueError"
  by code_simp

text \<open>
  Claim C5, as stated, fails on the engine, which matches a tag only when it is equal to
  a requirement code: the zero-padded token \<open>CR01\<close>, which \<open>norm_cr\<close> maps to \<open>CR1\<close>,
  leaves the id list of \<open>CR1\<close> empty there.
\<close>

theorem engine_padded_tag_counterexample:
  "norm_cr plain (lit ''CR01'') = Inr (Some (lit ''CR1''))
   \<and> final_ids (engine_loop plain sorted_list_of_set (lit ''id'') (lit ''tags'') (Some (lit ''evidence''))
        ex_padded_rows) (lit ''CR1'') = Some []"
  by code_simp

text \<open>
  Claim C5, amended. In phase 0, \<open>norm_cr\<close> deletes white space, hyphens and underscores
  from the token and upper-cases it; when the result is \<open>CR\<close> followed by zeros and the
  digits of a number \<open>k\<close> from 1 to 10 (at most 4300 digits in all, the limit of
  \<^verbatim>\<open>int\<close>), the token matches the code \<open>CRk\<close>, and whenever \<open>coverage_from_rows\<close>
  returns, a row that carries the token in a tag column is listed under \<open>CRk\<close>.
  In the engine a row is listed under a code exactly when one of its normalised tags is
  equal to the code: \<open>cr1\<close> normalises to \<open>CR1\<close>, but \<open>CR01\<close> and \<open>CR-1\<close> stay
  as they are and match nothing.
\<close>

theorem tag_matching_variants:
  assumes "upper X (filter (\<lambda>c. \<not> is_sep X c) tok) = lit ''CR'' @ replicate n (ch CHR ''0'') @ str_nat k"
    and "1 \<le> k" "k \<le> 10" "n + 2 \<le> 4300"
  shows "norm_cr X tok = Inr (Some (lit ''CR'' @ str_nat k))
    \<and> (\<forall>cov. coverage_from_rows X rs = Inr cov \<and> i < length rs
            \<and> tok \<in> row_tags X (tag_cols X rs) (rs ! i) \<longrightarrow>
         (\<exists>qs. cov (lit ''CR'' @ str_nat k) = Some qs
            \<and> row_qid (id_col X rs) (Suc i) (rs ! i) \<in> set qs))
    \<and> (\<forall>st. engine_loop X ord idcol tagcol evcol rs = Inr st \<longrightarrow>
         final_ids (Inr st) (lit ''CR'' @ str_nat k)
           = Some (map (engine_qid X idcol)
                    (filter (\<lambda>row. lit ''CR'' @ str_nat k \<in> norm_tags X (row_get_default row tagcol)) rs)))
    \<and> norm_tags X (Some (lit ''cr1'')) = {lit ''CR1''}
    \<and> norm_tags X (Some (lit ''CR01'')) = {lit ''CR01''}
    \<and> norm_tags X (Some (lit ''CR-1'')) = {lit ''CR-1''}"
proof -
  let ?c = "lit ''CR'' @ str_nat k"
  have n: "norm_cr X tok = Inr (Some ?c)" by (rule norm_cr_padded[OF assms])
  have R: "?c \<in> set REQS" using assms(2,3) by (rule REQS_CR)
  have a: "\<exists>qs. cov ?c = Some qs \<and> row_qid (id_col X rs) (Suc i) (rs ! i) \<in> set qs"
    if "coverage_from_rows X rs = Inr cov" "i < length rs" "tok \<in> row_tags X (tag_cols X rs) (rs ! i)"
    for cov
  proof -
    have "?c \<in> row_hits X (txt_col X rs) (tag_cols X rs) (rs ! i)"
      unfolding row_hits_def using that(3) n by (force simp: cr_of_tag_iff)
    then have "row_qid (id_col X rs) (Suc i) (rs ! i) \<in> set (matching_ids X rs ?c)"
      using that(2) by (intro recorded_under_hit)
    then show ?thesis using R coverage_returns(2)[OF that(1)] by (simp add: first_seen_props)
  qed
  have b: "final_ids (Inr st) ?c
           = Some (map (engine_qid X idcol)
                    (filter (\<lambda>row. ?c \<in> norm_tags X (row_get_default row tagcol)) rs))"
    if st: "engine_loop X ord idcol tagcol evcol rs = Inr st" for st
  proof -
    have ok: "list_all (row_ok X idcol tagcol evcol) rs"
      using st engine_loop_not_ok[of X idcol tagcol evcol rs ord] by auto
    show ?thesis
      using st R unfolding engine_loop_ok[OF ok] by (auto simp: final_ids_def engine_tags_def)
  qed
  have e: "norm_tags X (Some (lit ''cr1'')) = {lit ''CR1''}
    \<and> norm_tags X (Some (lit ''CR01'')) = {lit ''CR01''}
    \<and> norm_tags X (Some (lit ''CR-1'')) = {lit ''CR-1''}" by code_simp
  show ?thesis using n a b e by blast
qed

lemma tag_matching_examples:
  "upper X (filter (\<lambda>c. \<not> is_sep X c) (lit ''CR_003'')) = lit ''CR'' @ replicate 2 (ch CHR ''0'') @ str_nat 3"
  "(1::nat) < length ex_padded_rows"
  "lit ''CR_003'' \<in> row_tags X (tag_cols X ex_padded_rows) (ex_padded_rows ! 1)"
  "row_qid (id_col X ex_padded_rows) (Suc 1) (ex_padded_rows ! 1) = Str (lit ''Q2'')"
  "final_ids (engine_loop X sorted_list_of_set (lit ''id'') (lit ''tags'') (Some (lit ''evidence''))
      ex_padded_rows) (lit ''CR3'') = Some []"
  "coverage_error X ex_padded_rows = None"
  by code_simp+

theorem tag_matching_variants_witness:
  "upper plain (filter (\<lambda>c. \<not> is_sep plain c) (lit ''CR_003''))
      = lit ''CR'' @ replicate 2 (ch CHR ''0'') @ str_nat 3
   \<and> (1::nat) \<le> 3 \<and> (3::nat) \<le> 10 \<and> (2::nat) + 2 \<le> 4300
   \<and> (1::nat) < length ex_padded_rows
   \<and> lit ''CR_003'' \<in> row_tags plain (tag_cols plain ex_padded_rows) (ex_padded_rows ! 1)
   \<and> norm_cr plain (lit ''CR_003'') = Inr (Some (lit ''CR3''))
   \<and> (\<exists>cov qs. coverage_from_rows plain ex_padded_rows = Inr cov \<and> cov (lit ''CR3'') = Some qs
         \<and> Str (lit ''Q2'') \<in> set qs)
   \<and> final_ids (engine_loop plain sorted_list_of_set (lit ''id'') (lit ''tags'') (Some (lit ''evidence''))
        ex_padded_rows) (lit ''CR3'') = Some []"
proof -
  note e = tag_matching_examples(1,3-6)[of plain]
  note e2 = tag_matching_examples(2)
  have h2: "(1::nat) \<le> 3" "(3::nat) \<le> 10" "(2::nat) + 2 \<le> 4300" by simp_all
  have s3: "lit ''CR'' @ str_nat 3 = lit ''CR3''" by code_simp
  note t = tag_matching_variants[OF e(1) h2, of ex_padded_rows 1]
  obtain cov where cov: "coverage_from_rows plain ex_padded_rows = Inr cov"
    using coverage_from_rows_eq[of plain ex_padded_rows] e(5) by simp
  have r: "\<exists>qs. cov (lit ''CR3'') = Some qs \<and> Str (lit ''Q2'') \<in> set qs"
    using t[THEN conjunct2, THEN conjunct1, rule_format, of cov] cov e2 e(2)
    unfolding s3 e(3) by simp
  have n: "norm_cr plain (lit ''CR_003'') = Inr (Some (lit ''CR3''))"
    using t[THEN conjunct1] unfolding s3 .
  show ?thesis using e(1) h2 e2 e(2) n cov r e(4) by blast
qed

section \<open>The coverage table\<close>

lemma row_qid_string: "extra row = [] \<Longrightarrow> \<exists>s. row_qid idf i row = Str s"
  by (auto simp: row_qid_def row_get_def split: option.splits)

lemma all_strings: "(\<And>q. q \<in> set qs \<Longrightarrow> \<exists>s. q = Str s) \<Longrightarrow> \<exists>l. qs = map Str l"
proof (induction qs)
  case Nil
  then show ?case by simp
next
  case (Cons q qs)
  then obtain s l where "q = Str s" "qs = map Str l" by (metis list.set_intros)
  then have "q # qs = map Str (s # l)" by simp
  then show ?case by (rule exI)
qed

lemma write_coverage_rectangular:
  assumes "coverage_from_rows X rs = Inr cov" "\<forall>row \<in> set rs. extra row = []"
  shows "\<exists>table. write_coverage cov = Inr table"
proof (rule write_coverage_total)
  fix r assume r: "r \<in> set REQS"
  have "\<exists>s. q = Str s" if "q \<in> set (matching_ids X rs r)" for q
    using matching_ids_mem[OF that] assms(2) row_qid_string by (metis nth_mem)
  then have "\<exists>l. first_seen (matching_ids X rs r) = map Str l"
    by (intro all_strings) (simp add: first_seen_props)
  then show "\<exists>l. cov_get cov r = map Str l"
    using coverage_returns(2)[OF assms(1)] r by (simp add: cov_get_def)
qed

lemma write_coverage_empty:
  "\<exists>cov table. coverage_from_rows X [] = Inr cov \<and> write_coverage cov = Inr table
     \<and> (\<forall>row \<in> set table. Covered row = lit ''N'' \<and> Count row = 0 \<and> QuestionIDs row = [])"
proof -
  let ?cov = "\<lambda>r. if r \<in> set REQS then Some (first_seen (matching_ids X [] r)) else None"
  have c: "coverage_from_rows X [] = Inr ?cov"
    by (simp add: coverage_from_rows_eq coverage_error_def)
  obtain table where t: "write_coverage ?cov = Inr table"
    using write_coverage_rectangular[OF c] by auto
  have g: "cov_get ?cov r = []" for r
    by (simp add: cov_get_def matching_ids_def first_seen_def)
  have "Covered row = lit ''N'' \<and> Count row = 0 \<and> QuestionIDs row = []" if "row \<in> set table" for row
    using write_coverage_row[OF t that] coverage_line_Inr[of ?cov "Requirement row" row] g
    by auto
  then show ?thesis using c t by blast
qed

text \<open>
  Claim C4. The coverage table has one row for each requirement code of the fixed list
  \<open>CR1\<close> to \<open>CR10\<close> and \<open>A\<close> to \<open>G\<close>, in that order, in every table that phase 0
  writes and in the engine whenever it writes its reports; a row says \<open>Y\<close> exactly when
  the id list of its code is not empty, and carries the length of the list and the joined
  ids. Phase 0 writes the table whenever \<open>coverage_from_rows\<close> returns and no line has
  cells beyond the header. When there is no input row, all 17 rows say \<open>N\<close>, count 0
  and have no ids.
\<close>

theorem coverage_table_complete:
  "(\<forall>cov table. write_coverage cov = Inr table \<longrightarrow>
        map Requirement table = REQS
      \<and> (\<forall>row \<in> set table. \<exists>l. cov_get cov (Requirement row) = map Str l
            \<and> Covered row = (if l \<noteq> [] then lit ''Y'' else lit ''N'')
            \<and> Count row = length l \<and> QuestionIDs row = join (lit '';'') l))
   \<and> (\<forall>cov. coverage_from_rows X rs = Inr cov \<and> (\<forall>row \<in> set rs. extra row = []) \<longrightarrow>
         (\<exists>table. write_coverage cov = Inr table))
   \<and> (\<exists>cov table. coverage_from_rows X [] = Inr cov \<and> write_coverage cov = Inr table
         \<and> (\<forall>row \<in> set table. Covered row = lit ''N'' \<and> Count row = 0 \<and> QuestionIDs row = []))
   \<and> REQS = map lit [''CR1'', ''CR2'', ''CR3'', ''CR4'', ''CR5'', ''CR6'', ''CR7'', ''CR8'', ''CR9'',
                      ''CR10'', ''A'', ''B'', ''C'', ''D'', ''E'', ''F'', ''G'']
   \<and> length REQS = 17
   \<and> (\<forall>arts. engine_main X ord env = (Exit 0, arts) \<longrightarrow>
        (\<exists>table gaps summ idcol tagcol.
           arts = [Phase2Coverage table, Phase2MissingEvidence gaps, Phase2Summary summ]
           \<and> idcol_of X env = Some idcol \<and> tagcol_of X env = Some tagcol
           \<and> map Requirement table = REQS
           \<and> (\<forall>row \<in> set table.
                 Covered row = (if engine_ids X idcol tagcol (rows env) (Requirement row) \<noteq> []
                                then lit ''Y'' else lit ''N'')
                 \<and> Count row = length (engine_ids X idcol tagcol (rows env) (Requirement row))
                 \<and> QuestionIDs row
                     = join (lit '';'') (engine_ids X idcol tagcol (rows env) (Requirement row)))
           \<and> (rows env = [] \<longrightarrow> (\<forall>row \<in> set table.
                 Covered row = lit ''N'' \<and> Count row = 0 \<and> QuestionIDs row = []))))"
proof (intro conjI allI impI)
  fix cov table assume w: "write_coverage cov = Inr table"
  show "map Requirement table = REQS" by (rule write_coverage_Requirement[OF w])
  show "\<forall>row \<in> set table. \<exists>l. cov_get cov (Requirement row) = map Str l
            \<and> Covered row = (if l \<noteq> [] then lit ''Y'' else lit ''N'')
            \<and> Count row = length l \<and> QuestionIDs row = join (lit '';'') l"
  proof
    fix row assume "row \<in> set table"
    then have "coverage_line cov (Requirement row) = Inr row"
      using write_coverage_row[OF w] by simp
    then show "\<exists>l. cov_get cov (Requirement row) = map Str l
            \<and> Covered row = (if l \<noteq> [] then lit ''Y'' else lit ''N'')
            \<and> Count row = length l \<and> QuestionIDs row = join (lit '';'') l"
      using coverage_line_Inr[of cov "Requirement row" row] by blast
  qed
next
  fix cov assume "coverage_from_rows X rs = Inr cov \<and> (\<forall>row \<in> set rs. extra row = [])"
  then show "\<exists>table. write_coverage cov = Inr table"
    using write_coverage_rectangular[of X rs cov] by simp
next
  show "\<exists>cov table. coverage_from_rows X [] = Inr cov \<and> write_coverage cov = Inr table
         \<and> (\<forall>row \<in> set table. Covered row = lit ''N'' \<and> Count row = 0 \<and> QuestionIDs row = [])"
    by (rule write_coverage_empty)
next
  show "REQS = map lit [''CR1'', ''CR2'', ''CR3'', ''CR4'', ''CR5'', ''CR6'', ''CR7'', ''CR8'', ''CR9'',
                      ''CR10'', ''A'', ''B'', ''C'', ''D'', ''E'', ''F'', ''G'']" by (rule REQS_eval)
next
  show "length REQS = 17" by (simp add: REQS_eval)
next
  fix arts assume a: "engine_main X ord env = (Exit 0, arts)"
  then obtain idcol tagcol where h: "questions_exists env" "idcol_of X env = Some idcol"
    "tagcol_of X env = Some tagcol" "list_all (row_ok X idcol tagcol (evcol_of X env)) (rows env)"
    by (rule engine_main_exit0)
  have e: "engine_ids X idcol tagcol [] r = []" for r by (simp add: engine_ids_def)
  show "\<exists>table gaps summ idcol tagcol.
           arts = [Phase2Coverage table, Phase2MissingEvidence gaps, Phase2Summary summ]
           \<and> idcol_of X env = Some idcol \<and> tagcol_of X env = Some tagcol
           \<and> map Requirement table = REQS
           \<and> (\<forall>row \<in> set table.
                 Covered row = (if engine_ids X idcol tagcol (rows env) (Requirement row) \<noteq> []
                                then lit ''Y'' else lit ''N'')
                 \<and> Count row = length (engine_ids X idcol tagcol (rows env) (Requirement row))
                 \<and> QuestionIDs row
                     = join (lit '';'') (engine_ids X idcol tagcol (rows env) (Requirement row)))
           \<and> (rows env = [] \<longrightarrow> (\<forall>row \<in> set table.
                 Covered row = lit ''N'' \<and> Count row = 0 \<and> QuestionIDs row = []))"
    using a h(2,3) unfolding engine_main_ok[OF h, of ord]
    by (auto simp: comp_def e)
qed

lemma coverage_table_examples:
  "(case and_then (coverage_from_rows X ex_engine_rows) write_coverage of
      Inl e \<Rightarrow> None
    | Inr table \<Rightarrow> Some (map (\<lambda>row. (Requirement row, Covered row, Count row, QuestionIDs row))
                          (take 2 table)))
   = Some [(lit ''CR1'', lit ''Y'', 2, lit ''Q1;Q2''), (lit ''CR2'', lit ''N'', 0, [])]"
  "fst (engine_main X sorted_list_of_set (ex_files [''id'', ''tags'', ''evidence''] ex_engine_rows))
   = Exit 0"
  "map (\<lambda>a. case a of
          Phase2Coverage t \<Rightarrow> map (\<lambda>row. (Requirement row, Covered row, Count row, QuestionIDs row))
                                (take 2 t)
        | _ \<Rightarrow> [])
     (snd (engine_main X sorted_list_of_set (ex_files [''id'', ''tags'', ''evidence''] ex_engine_rows)))
   = [[(lit ''CR1'', lit ''Y'', 2, lit ''Q1;Q2''), (lit ''CR2'', lit ''N'', 0, [])], [], []]"
  "fst (engine_main X sorted_list_of_set (ex_files [''id'', ''tags'', ''evidence''] [])) = Exit 0"
  by code_simp+

theorem coverage_table_complete_witness:
  "list_all (\<lambda>row. extra row = []) ex_engine_rows
   \<and> (\<exists>cov table. coverage_from_rows plain ex_engine_rows = Inr cov
         \<and> write_coverage cov = Inr table
         \<and> map Requirement table = REQS \<and> length table = 17
         \<and> map (\<lambda>row. (Requirement row, Covered row, Count row, QuestionIDs row)) (take 2 table)
             = [(lit ''CR1'', lit ''Y'', 2, lit ''Q1;Q2''), (lit ''CR2'', lit ''N'', 0, [])])
   \<and> (\<exists>table gaps summ.
         engine_main plain sorted_list_of_set (ex_files [''id'', ''tags'', ''evidence''] ex_engine_rows)
           = (Exit 0, [Phase2Coverage table, Phase2MissingEvidence gaps, Phase2Summary summ])
         \<and> map Requirement table = REQS \<and> length table = 17
         \<and> map (\<lambda>row. (Requirement row, Covered row, Count row, QuestionIDs row)) (take 2 table)
             = [(lit ''CR1'', lit ''Y'', 2, lit ''Q1;Q2''), (lit ''CR2'', lit ''N'', 0, [])])
   \<and> rows (ex_files [''id'', ''tags'', ''evidence''] []) = []
   \<and> (\<exists>table gaps summ.
        engine_main plain sorted_list_of_set (ex_files [''id'', ''tags'', ''evidence''] [])
          = (Exit 0, [Phase2Coverage table, Phase2MissingEvidence gaps, Phase2Summary summ])
        \<and> map Requirement table = REQS \<and> length table = 17
        \<and> list_all (\<lambda>row. Covered row = lit ''N'' \<and> Count row = 0 \<and> QuestionIDs row = []) table)
   \<and> (\<exists>cov table. coverage_from_rows plain [] = Inr cov \<and> write_coverage cov = Inr table
        \<and> map Requirement table = REQS
        \<and> list_all (\<lambda>row. Covered row = lit ''N'' \<and> Count row = 0 \<and> QuestionIDs row = []) table)"
proof -
  let ?E = "ex_files [''id'', ''tags'', ''evidence''] ex_engine_rows"
  let ?Z = "ex_files [''id'', ''tags'', ''evidence''] []"
  note e = coverage_table_examples[of plain]
  have x: "list_all (\<lambda>row. extra row = []) ex_engine_rows" by code_simp
  have r: "rows ?Z = []" by (simp add: ex_files_def)
  note t = coverage_table_complete[of plain ex_engine_rows sorted_list_of_set ?E]
  note z = coverage_table_complete[of plain "[]" sorted_list_of_set ?Z]
  have len: "length REQS = 17" using t by blast
  obtain cov where cov: "coverage_from_rows plain ex_engine_rows = Inr cov"
    using e(1) by (cases "coverage_from_rows plain ex_engine_rows") (auto simp: and_then_def)
  obtain table where table: "write_coverage cov = Inr table"
    using t[THEN conjunct2, THEN conjunct1, rule_format, of cov] cov x by (auto simp: list_all_iff)
  have tr: "map Requirement table = REQS"
    using t[THEN conjunct1, rule_format, OF table] by simp
  have tl: "length table = 17" using tr len by (metis length_map)
  have tv: "map (\<lambda>row. (Requirement row, Covered row, Count row, QuestionIDs row)) (take 2 table)
             = [(lit ''CR1'', lit ''Y'', 2, lit ''Q1;Q2''), (lit ''CR2'', lit ''N'', 0, [])]"
    using e(1) cov table by (simp add: and_then_def)
  obtain arts where a: "engine_main plain sorted_list_of_set ?E = (Exit 0, arts)"
    using e(2) by (cases "engine_main plain sorted_list_of_set ?E") auto
  from t[THEN conjunct2, THEN conjunct2, THEN conjunct2, THEN conjunct2, THEN conjunct2,
      rule_format, OF a]
  obtain etable gaps summ where
    ea: "arts = [Phase2Coverage etable, Phase2MissingEvidence gaps, Phase2Summary summ]"
    and er: "map Requirement etable = REQS"
    by blast
  have el: "length etable = 17" using er len by (metis length_map)
  have ev: "map (\<lambda>row. (Requirement row, Covered row, Count row, QuestionIDs row)) (take 2 etable)
             = [(lit ''CR1'', lit ''Y'', 2, lit ''Q1;Q2''), (lit ''CR2'', lit ''N'', 0, [])]"
    using e(3) a ea by simp
  obtain zarts where za: "engine_main plain sorted_list_of_set ?Z = (Exit 0, zarts)"
    using e(4) by (cases "engine_main plain sorted_list_of_set ?Z") auto
  from z[THEN conjunct2, THEN conjunct2, THEN conjunct2, THEN conjunct2, THEN conjunct2,
      rule_format, OF za] r
  obtain ztable zgaps zsumm where
    zz: "zarts = [Phase2Coverage ztable, Phase2MissingEvidence zgaps, Phase2Summary zsumm]"
    and zr: "map Requirement ztable = REQS"
    and zn: "\<forall>row \<in> set ztable. Covered row = lit ''N'' \<and> Count row = 0 \<and> QuestionIDs row = []"
    by blast
  have zl: "length ztable = 17" using zr len by (metis length_map)
  from z[THEN conjunct2, THEN conjunct2, THEN conjunct1]
  obtain cov0 table0 where c0: "coverage_from_rows plain [] = Inr cov0"
    "write_coverage cov0 = Inr table0"
    "\<forall>row \<in> set table0. Covered row = lit ''N'' \<and> Count row = 0 \<and> QuestionIDs row = []"
    by blast
  have r0: "map Requirement table0 = REQS"
    using z[THEN conjunct1, rule_format, OF c0(2)] by simp
  have 1: "\<exists>cov table. coverage_from_rows plain ex_engine_rows = Inr cov
         \<and> write_coverage cov = Inr table
         \<and> map Requirement table = REQS \<and> length table = 17
         \<and> map (\<lambda>row. (Requirement row, Covered row, Count row, QuestionIDs row)) (take 2 table)
             = [(lit ''CR1'', lit ''Y'', 2, lit ''Q1;Q2''), (lit ''CR2'', lit ''N'', 0, [])]"
    by (intro exI[of _ cov] exI[of _ table] conjI cov table tr tl tv)
  have 2: "\<exists>table gaps summ.
         engine_main plain sorted_list_of_set ?E
           = (Exit 0, [Phase2Coverage table, Phase2MissingEvidence gaps, Phase2Summary summ])
         \<and> map Requirement table = REQS \<and> length table = 17
         \<and> map (\<lambda>row. (Requirement row, Covered row, Count row, QuestionIDs row)) (take 2 table)
             = [(lit ''CR1'', lit ''Y'', 2, lit ''Q1;Q2''), (lit ''CR2'', lit ''N'', 0, [])]"
  proof -
    have a2: "engine_main plain sorted_list_of_set ?E
           = (Exit 0, [Phase2Coverage etable, Phase2MissingEvidence gaps, Phase2Summary summ])"
      using a ea by simp
    show ?thesis by (intro exI[of _ etable] exI[of _ gaps] exI[of _ summ] conjI a2 er el ev)
  qed
  have 3: "\<exists>table gaps summ.
        engine_main plain sorted_list_of_set ?Z
          = (Exit 0, [Phase2Coverage table, Phase2MissingEvidence gaps, Phase2Summary summ])
        \<and> map Requirement table = REQS \<and> length table = 17
        \<and> list_all (\<lambda>row. Covered row = lit ''N'' \<and> Count row = 0 \<and> QuestionIDs row = []) table"
  proof -
    have z2: "engine_main plain sorted_list_of_set ?Z
          = (Exit 0, [Phase2Coverage ztable, Phase2MissingEvidence zgaps, Phase2Summary zsumm])"
      using za zz by simp
    have zn2: "list_all (\<lambda>row. Covered row = lit ''N'' \<and> Count row = 0 \<and> QuestionIDs row = []) ztable"
      using zn by (simp add: list_all_iff)
    show ?thesis by (intro exI[of _ ztable] exI[of _ zgaps] exI[of _ zsumm] conjI z2 zr zl zn2)
  qed
  have 4: "\<exists>cov table. coverage_from_rows plain [] = Inr cov \<and> write_coverage cov = Inr table
        \<and> map Requirement table = REQS
        \<and> list_all (\<lambda>row. Covered row = lit ''N'' \<and> Count row = 0 \<and> QuestionIDs row = []) table"
  proof -
    have n0: "list_all (\<lambda>row. Covered row = lit ''N'' \<and> Count row = 0 \<and> QuestionIDs row = []) table0"
      using c0(3) by (simp add: list_all_iff)
    show ?thesis by (intro exI[of _ cov0] exI[of _ table0] conjI c0(1,2) r0 n0)
  qed
  show ?thesis by (intro conjI x r 1 2 3 4)
qed

section \<open>The evidence gate\<close>

lemma evidence_gate_complete_rows:
  assumes "engine_main X ord env = (Exit 0, arts)"
  shows "\<exists>table summ idcol tagcol.
           arts = [Phase2Coverage table,
                   Phase2MissingEvidence
                     (map (gap_entry X ord idcol tagcol)
                        (filter (lacks_evidence X tagcol (evcol_of X env)) (rows env))),
                   Phase2Summary summ]
           \<and> idcol_of X env = Some idcol \<and> tagcol_of X env = Some tagcol"
proof -
  from assms obtain idcol tagcol where h: "questions_exists env" "idcol_of X env = Some idcol"
    "tagcol_of X env = Some tagcol" "list_all (row_ok X idcol tagcol (evcol_of X env)) (rows env)"
    by (rule engine_main_exit0)
  show ?thesis using assms h(2,3) unfolding engine_main_ok[OF h, of ord] by auto
qed

lemma evidence_gate_scenario:
  "snd (engine_main X sorted_list_of_set (ex_files [''id'', ''tags'', ''evidence''] ex_engine_rows)) ! 1
   = Phase2MissingEvidence [(lit ''Q1'', lit ''CR1,EVIDENCE_REQUIRED'')]"
  by code_simp

lemma evidence_gate_short_row_any:
  "evcol_of X (ex_files [''id'', ''tags'', ''evidence''] ex_short_rows) = Some (lit ''evidence'')
   \<and> lit ''EVIDENCE_REQUIRED'' \<in> engine_tags X (lit ''tags'') (ex_short_rows ! 1)
   \<and> ev_cell (Some (lit ''evidence'')) (ex_short_rows ! 1) = None
   \<and> engine_main X sorted_list_of_set (ex_files [''id'', ''tags'', ''evidence''] ex_short_rows)
       = (Traceback AttributeError, [])"
  by code_simp

text \<open>
  Claim C7 holds on every run of the engine that writes its reports (the lemmas above:
  the gap table is the list of the entries of the rows that carry the marker tag and have
  a blank evidence cell or no evidence column, in the order of the input), but not on a
  table with a line that stops before the evidence cell: for such a row
  \<^verbatim>\<open>csv.DictReader\<close> gives the cell \<^verbatim>\<open>None\<close>, the default of \<^verbatim>\<open>row.get(evcol, "")\<close>
  is not used, and \<^verbatim>\<open>.strip()\<close> raises. The record is tagged as requiring evidence and
  has no evidence, yet no gap entry is written, and no report at all.
\<close>

theorem evidence_gate_short_row:
  "evcol_of plain (ex_files [''id'', ''tags'', ''evidence''] ex_short_rows) = Some (lit ''evidence'')
   \<and> lit ''EVIDENCE_REQUIRED'' \<in> engine_tags plain (lit ''tags'') (ex_short_rows ! 1)
   \<and> ev_cell (Some (lit ''evidence'')) (ex_short_rows ! 1) = None
   \<and> engine_main plain sorted_list_of_set (ex_files [''id'', ''tags'', ''evidence''] ex_short_rows)
       = (Traceback AttributeError, [])"
  by code_simp

section \<open>Determinism\<close>

lemma finite_norm_tags: "finite (norm_tags X v)"
  by (auto simp: norm_tags_def split: option.splits)

lemma sort_valid_order:
  assumes "valid_order ord" "finite S"
  shows "sort (ord S) = sorted_list_of_set S"
proof -
  have "sorted_list_of_set (set (ord S)) = sort (remdups (ord S))"
    by (rule sorted_list_of_set_sort_remdups)
  then show ?thesis using assms by (simp add: valid_order_def distinct_remdups_id)
qed

lemma gap_entry_order:
  "valid_order ord \<Longrightarrow>
   gap_entry X ord idcol tagcol row = gap_entry X sorted_list_of_set idcol tagcol row"
  by (simp add: gap_entry_def engine_tags_def sort_valid_order finite_norm_tags
      sorted_list_of_set.sorted_sorted_key_list_of_set sorted_sort_id)

lemma engine_main_order:
  assumes "valid_order ord"
  shows "engine_main X ord env = engine_main X sorted_list_of_set env"
proof (cases "questions_exists env")
  case False
  then show ?thesis by (simp add: engine_main_missing)
next
  case True
  show ?thesis
  proof (cases "idcol_of X env = None \<or> tagcol_of X env = None")
    case c: True
    show ?thesis using True c by (simp add: engine_main_columns)
  next
    case False
    then obtain idcol tagcol where c: "idcol_of X env = Some idcol" "tagcol_of X env = Some tagcol"
      by auto
    show ?thesis
    proof (cases "list_all (row_ok X idcol tagcol (evcol_of X env)) (rows env)")
      case ok: True
      show ?thesis
        unfolding engine_main_ok[OF True c ok] by (simp add: gap_entry_order[OF assms])
    next
      case bad: False
      show ?thesis unfolding engine_main_crash[OF True c bad] ..
    qed
  qed
qed

lemma coverage_order:
  assumes "valid_order ord"
  shows "coverage_from_rows_ord X ord rs = coverage_from_rows X rs"
  unfolding coverage_from_rows_eq
  by (rule coverage_from_rows_ord_eq) (use assms in \<open>simp add: valid_order_def\<close>)

text \<open>
  Claim C9. Both programs are functions of what they read: the rows, the header and the
  presence of the files. Nothing else enters a run but the order in which the sets of
  tags are enumerated, and that order does not matter: with any two enumeration orders,
  phase 0 gives the same coverage mapping, exit status and artifacts, and the engine the
  same exit status, coverage table, gap table and summary. The artifacts are the tables
  and records handed to the CSV and JSON writers, which are functions of them.
\<close>

theorem runs_independent_of_set_order:
  assumes "valid_order ord1" "valid_order ord2"
  shows "coverage_from_rows_ord X ord1 rs = coverage_from_rows_ord X ord2 rs
       \<and> phase0_main X ord1 env = phase0_main X ord2 env
       \<and> engine_main X ord1 env = engine_main X ord2 env"
  using assms by (simp add: coverage_order engine_main_order[of ord1] engine_main_order[of ord2]
      phase0_main_def)

theorem runs_independent_of_set_order_witness:
  "valid_order sorted_list_of_set \<and> valid_order (\<lambda>S. rev (sorted_list_of_set S))
   \<and> coverage_from_rows_ord plain (\<lambda>S. rev (sorted_list_of_set S)) ex_rows
       = coverage_from_rows_ord plain sorted_list_of_set ex_rows
   \<and> phase0_main plain (\<lambda>S. rev (sorted_list_of_set S))
         (ex_files [''ID'', ''Tags'', ''Category'', ''Text''] ex_rows)
       = phase0_main plain sorted_list_of_set (ex_files [''ID'', ''Tags'', ''Category'', ''Text''] ex_rows)
   \<and> engine_main plain (\<lambda>S. rev (sorted_list_of_set S))
         (ex_files [''id'', ''tags'', ''evidence''] ex_engine_rows)
       = engine_main plain sorted_list_of_set (ex_files [''id'', ''tags'', ''evidence''] ex_engine_rows)"
proof -
  have v1: "valid_order sorted_list_of_set" by (simp add: valid_order_def)
  have v2: "valid_order (\<lambda>S. rev (sorted_list_of_set S))" by (simp add: valid_order_def)
  show ?thesis
    using v1 v2
      runs_independent_of_set_order[OF v2 v1, of plain ex_rows
        "ex_files [''ID'', ''Tags'', ''Category'', ''Text''] ex_rows"]
      runs_independent_of_set_order[OF v2 v1, of plain ex_rows
        "ex_files [''id'', ''tags'', ''evidence''] ex_engine_rows"]
    by simp
qed

section \<open>Exit status\<close>

text \<open>
  Claim C3, as stated, fails on phase 0. It has no column check: on a table with neither
  an identifier column nor a tag column (the engine finds none of the two either) it
  gives every row its positional id, ends with status 0 and writes both of its
  artifacts. And with both files present and every column found, it ends with status 1
  when the PDF library is missing, after it has written the coverage report.
\<close>

theorem phase0_no_column_check_counterexample:
  "id_col plain ex_nocol_rows = None \<and> tag_cols plain ex_nocol_rows = []
   \<and> idcol_of plain (ex_files [''question'', ''owner''] ex_nocol_rows) = None
   \<and> tagcol_of plain (ex_files [''question'', ''owner''] ex_nocol_rows) = None
   \<and> fst (phase0_main plain sorted_list_of_set (ex_files [''question'', ''owner''] ex_nocol_rows)) = Exit 0
   \<and> length (snd (phase0_main plain sorted_list_of_set (ex_files [''question'', ''owner''] ex_nocol_rows))) = 2
   \<and> fst (phase0_main plain sorted_list_of_set
             ((ex_files [''id'', ''tags'', ''evidence''] ex_engine_rows)\<lparr>pdf := NoPyPDF2\<rparr>)) = Exit 1
   \<and> length (snd (phase0_main plain sorted_list_of_set
             ((ex_files [''id'', ''tags'', ''evidence''] ex_engine_rows)\<lparr>pdf := NoPyPDF2\<rparr>))) = 1"
  by code_simp

text \<open>How phase 0 ends once the coverage table is written.\<close>

lemma phase0_main_cases:
  assumes "questions_exists env" "pdf_exists env"
  shows "phase0_main X ord env =
     (case and_then (coverage_from_rows_ord X ord (rows env)) write_coverage of
        Inl e \<Rightarrow> (Traceback e, [])
      | Inr table \<Rightarrow>
          (case pdf env of
             NoPyPDF2 \<Rightarrow> (Exit 1, [CoverageReport table])
           | Unreadable \<Rightarrow> (Traceback PdfError, [CoverageReport table])
           | Fields fs \<Rightarrow> (Exit 0, [CoverageReport table, BindingMap fs])))"
  using assms by (simp add: phase0_main_def Let_def split: sum.splits pdf_env.splits)

lemma row_tags_no_columns: "row_tags X [] row = {}"
  by (simp add: row_tags_def)

lemma coverage_no_tag_columns:
  assumes "tag_cols X rs = []" "\<forall>row \<in> set rs. extra row = []"
  shows "coverage_error X rs = None"
proof -
  have "\<not> list_ex (bad_row X (tag_cols X rs)) rs"
    by (simp add: assms(1) bad_row_def row_tags_no_columns list_ex_iff)
  moreover have "extra (hd rs) = []" if "rs \<noteq> []" using that assms(2) by simp
  ultimately show ?thesis by (auto simp: coverage_error_def)
qed

lemma table_no_tag_columns:
  assumes "valid_order ord" "tag_cols X rs = []" "\<forall>row \<in> set rs. extra row = []"
  shows "\<exists>table. and_then (coverage_from_rows_ord X ord rs) write_coverage = Inr table"
proof -
  have "coverage_error X rs = None" by (rule coverage_no_tag_columns[OF assms(2,3)])
  then obtain cov where c: "coverage_from_rows X rs = Inr cov"
    by (simp add: coverage_from_rows_eq)
  then obtain table where "write_coverage cov = Inr table"
    using write_coverage_rectangular[OF c assms(3)] by blast
  then show ?thesis using c by (simp add: coverage_order[OF assms(1)] and_then_def)
qed

text \<open>
  Claim C3, amended. The engine ends with status 2 when the questions file is absent and
  with status 3 when the identifier column or the tag column is not found, and phase 0
  ends with status 1 when the questions file or the PDF template is absent; in all these
  cases nothing has been written. Phase 0 does not look for required columns: on a table
  without tag columns, with no line longer than the header, it always writes its
  coverage report. Once its files are there, phase 0 either ends by an exception before
  anything is written, or writes the coverage report and then ends with status 1 when
  the PDF library is missing, by an exception of the library when that fails on the
  template, and with status 0 and the binding map otherwise. Once the files and the
  columns are there, the engine either ends by an exception before anything is written,
  or with status 0 and its three reports. No run ends with a status other than 0 because
  of what the coverage table or the gap table holds.
\<close>

theorem exit_status_by_program:
  "(\<not> questions_exists env \<longrightarrow>
      engine_main X ord env = (Exit 2, []) \<and> phase0_main X ord env = (Exit 1, []))
   \<and> (\<not> pdf_exists env \<longrightarrow> phase0_main X ord env = (Exit 1, []))
   \<and> (questions_exists env \<and> (idcol_of X env = None \<or> tagcol_of X env = None) \<longrightarrow>
      engine_main X ord env = (Exit 3, []))
   \<and> (questions_exists env \<and> idcol_of X env \<noteq> None \<and> tagcol_of X env \<noteq> None \<longrightarrow>
      engine_main X ord env = (Traceback AttributeError, [])
      \<or> (\<exists>table gaps summ. engine_main X ord env
            = (Exit 0, [Phase2Coverage table, Phase2MissingEvidence gaps, Phase2Summary summ])))
   \<and> (questions_exists env \<and> pdf_exists env \<longrightarrow>
      (\<exists>e. phase0_main X ord env = (Traceback e, []))
      \<or> (\<exists>table. phase0_main X ord env
            = (case pdf env of
                 NoPyPDF2 \<Rightarrow> (Exit 1, [CoverageReport table])
               | Unreadable \<Rightarrow> (Traceback PdfError, [CoverageReport table])
               | Fields fs \<Rightarrow> (Exit 0, [CoverageReport table, BindingMap fs]))))
   \<and> (valid_order ord \<and> questions_exists env \<and> pdf_exists env
        \<and> tag_cols X (rows env) = [] \<and> (\<forall>row \<in> set (rows env). extra row = []) \<longrightarrow>
      (\<exists>table. phase0_main X ord env
            = (case pdf env of
                 NoPyPDF2 \<Rightarrow> (Exit 1, [CoverageReport table])
               | Unreadable \<Rightarrow> (Traceback PdfError, [CoverageReport table])
               | Fields fs \<Rightarrow> (Exit 0, [CoverageReport table, BindingMap fs]))))"
proof (intro conjI impI)
  assume "\<not> questions_exists env"
  then show "engine_main X ord env = (Exit 2, [])" "phase0_main X ord env = (Exit 1, [])"
    by (simp_all add: engine_main_missing phase0_main_def)
next
  assume "\<not> pdf_exists env"
  then show "phase0_main X ord env = (Exit 1, [])" by (simp add: phase0_main_def)
next
  assume "questions_exists env \<and> (idcol_of X env = None \<or> tagcol_of X env = None)"
  then show "engine_main X ord env = (Exit 3, [])" by (simp add: engine_main_columns)
next
  assume a: "questions_exists env \<and> idcol_of X env \<noteq> None \<and> tagcol_of X env \<noteq> None"
  then obtain idcol tagcol where c: "idcol_of X env = Some idcol" "tagcol_of X env = Some tagcol"
    by auto
  show "engine_main X ord env = (Traceback AttributeError, [])
      \<or> (\<exists>table gaps summ. engine_main X ord env
            = (Exit 0, [Phase2Coverage table, Phase2MissingEvidence gaps, Phase2Summary summ]))"
  proof (cases "list_all (row_ok X idcol tagcol (evcol_of X env)) (rows env)")
    case True
    have q: "questions_exists env" using a by simp
    show ?thesis unfolding engine_main_ok[OF q c True, of ord] by simp
  next
    case False
    have q: "questions_exists env" using a by simp
    show ?thesis using engine_main_crash[OF q c False, of ord] by simp
  qed
next
  assume a: "questions_exists env \<and> pdf_exists env"
  show "(\<exists>e. phase0_main X ord env = (Traceback e, []))
      \<or> (\<exists>table. phase0_main X ord env
            = (case pdf env of
                 NoPyPDF2 \<Rightarrow> (Exit 1, [CoverageReport table])
               | Unreadable \<Rightarrow> (Traceback PdfError, [CoverageReport table])
               | Fields fs \<Rightarrow> (Exit 0, [CoverageReport table, BindingMap fs])))"
  proof (cases "and_then (coverage_from_rows_ord X ord (rows env)) write_coverage")
    case (Inl e)
    then show ?thesis using a by (simp add: phase0_main_cases)
  next
    case (Inr table)
    have "phase0_main X ord env
            = (case pdf env of
                 NoPyPDF2 \<Rightarrow> (Exit 1, [CoverageReport table])
               | Unreadable \<Rightarrow> (Traceback PdfError, [CoverageReport table])
               | Fields fs \<Rightarrow> (Exit 0, [CoverageReport table, BindingMap fs]))"
      using a Inr by (simp add: phase0_main_cases)
    then show ?thesis by blast
  qed
next
  assume a: "valid_order ord \<and> questions_exists env \<and> pdf_exists env
        \<and> tag_cols X (rows env) = [] \<and> (\<forall>row \<in> set (rows env). extra row = [])"
  then obtain table where
    "and_then (coverage_from_rows_ord X ord (rows env)) write_coverage = Inr table"
    using table_no_tag_columns[of ord X "rows env"] by blast
  then have "phase0_main X ord env
            = (case pdf env of
                 NoPyPDF2 \<Rightarrow> (Exit 1, [CoverageReport table])
               | Unreadable \<Rightarrow> (Traceback PdfError, [CoverageReport table])
               | Fields fs \<Rightarrow> (Exit 0, [CoverageReport table, BindingMap fs]))"
    using a by (simp add: phase0_main_cases)
  then show "\<exists>table. phase0_main X ord env
            = (case pdf env of
                 NoPyPDF2 \<Rightarrow> (Exit 1, [CoverageReport table])
               | Unreadable \<Rightarrow> (Traceback PdfError, [CoverageReport table])
               | Fields fs \<Rightarrow> (Exit 0, [CoverageReport table, BindingMap fs]))"
    by (rule exI)
qed

lemma exit_status_files:
  "questions_exists (ex_files [''question'', ''owner''] ex_nocol_rows)"
  "pdf_exists (ex_files [''question'', ''owner''] ex_nocol_rows)"
  "pdf (ex_files [''question'', ''owner''] ex_nocol_rows) = Fields []"
  "\<forall>row \<in> set (rows (ex_files [''question'', ''owner''] ex_nocol_rows)). extra row = []"
  "questions_exists (ex_files [''id'', ''tags'', ''evidence''] ex_engine_rows)"
  "pdf_exists (ex_files [''id'', ''tags'', ''evidence''] ex_engine_rows)"
  "pdf (ex_files [''id'', ''tags'', ''evidence''] ex_engine_rows) = Fields []"
  by code_simp+

lemma exit_status_examples:
  "tagcol_of X (ex_files [''question'', ''owner''] ex_nocol_rows) = None"
  "tag_cols X (rows (ex_files [''question'', ''owner''] ex_nocol_rows)) = []"
  "idcol_of X (ex_files [''id'', ''tags'', ''evidence''] ex_engine_rows) \<noteq> None"
  "tagcol_of X (ex_files [''id'', ''tags'', ''evidence''] ex_engine_rows) \<noteq> None"
  "fst (engine_main X sorted_list_of_set (ex_files [''id'', ''tags'', ''evidence''] ex_engine_rows))
     = Exit 0"
  "fst (phase0_main X sorted_list_of_set (ex_files [''id'', ''tags'', ''evidence''] ex_engine_rows))
     = Exit 0"
  "fst (phase0_main X sorted_list_of_set
          ((ex_files [''id'', ''tags'', ''evidence''] ex_engine_rows)\<lparr>pdf := NoPyPDF2\<rparr>)) = Exit 1"
  by code_simp+

theorem exit_status_by_program_witness:
  "\<not> questions_exists ((ex_files [''id'', ''tags'', ''evidence''] ex_engine_rows)\<lparr>questions_exists := False\<rparr>)
   \<and> engine_main plain sorted_list_of_set
        ((ex_files [''id'', ''tags'', ''evidence''] ex_engine_rows)\<lparr>questions_exists := False\<rparr>)
       = (Exit 2, [])
   \<and> phase0_main plain sorted_list_of_set
        ((ex_files [''id'', ''tags'', ''evidence''] ex_engine_rows)\<lparr>questions_exists := False\<rparr>)
       = (Exit 1, [])
   \<and> \<not> pdf_exists ((ex_files [''id'', ''tags'', ''evidence''] ex_engine_rows)\<lparr>pdf_exists := False\<rparr>)
   \<and> phase0_main plain sorted_list_of_set
        ((ex_files [''id'', ''tags'', ''evidence''] ex_engine_rows)\<lparr>pdf_exists := False\<rparr>)
       = (Exit 1, [])
   \<and> tagcol_of plain (ex_files [''question'', ''owner''] ex_nocol_rows) = None
   \<and> engine_main plain sorted_list_of_set (ex_files [''question'', ''owner''] ex_nocol_rows) = (Exit 3, [])
   \<and> tag_cols plain (rows (ex_files [''question'', ''owner''] ex_nocol_rows)) = []
   \<and> (\<exists>table. phase0_main plain sorted_list_of_set (ex_files [''question'', ''owner''] ex_nocol_rows)
         = (Exit 0, [CoverageReport table, BindingMap []]))
   \<and> (\<exists>table gaps summ. engine_main plain sorted_list_of_set
           (ex_files [''id'', ''tags'', ''evidence''] ex_engine_rows)
         = (Exit 0, [Phase2Coverage table, Phase2MissingEvidence gaps, Phase2Summary summ]))
   \<and> (\<exists>table. phase0_main plain sorted_list_of_set (ex_files [''id'', ''tags'', ''evidence''] ex_engine_rows)
         = (Exit 0, [CoverageReport table, BindingMap []]))
   \<and> (\<exists>table. phase0_main plain sorted_list_of_set
           ((ex_files [''id'', ''tags'', ''evidence''] ex_engine_rows)\<lparr>pdf := NoPyPDF2\<rparr>)
         = (Exit 1, [CoverageReport table]))"
proof -
  let ?E = "ex_files [''id'', ''tags'', ''evidence''] ex_engine_rows"
  let ?N = "ex_files [''question'', ''owner''] ex_nocol_rows"
  let ?P = "?E\<lparr>pdf := NoPyPDF2\<rparr>"
  note e = exit_status_examples[of plain]
  note f = exit_status_files
  have q0: "\<not> questions_exists (?E\<lparr>questions_exists := False\<rparr>)" by simp
  have p0: "\<not> pdf_exists (?E\<lparr>pdf_exists := False\<rparr>)" by simp
  have v: "valid_order sorted_list_of_set" by (simp add: valid_order_def)
  note t = exit_status_by_program[of _ plain sorted_list_of_set]
  have 1: "engine_main plain sorted_list_of_set (?E\<lparr>questions_exists := False\<rparr>) = (Exit 2, [])"
    "phase0_main plain sorted_list_of_set (?E\<lparr>questions_exists := False\<rparr>) = (Exit 1, [])"
    using t[of "?E\<lparr>questions_exists := False\<rparr>", THEN conjunct1] q0 by simp_all
  have 2: "phase0_main plain sorted_list_of_set (?E\<lparr>pdf_exists := False\<rparr>) = (Exit 1, [])"
    using t[of "?E\<lparr>pdf_exists := False\<rparr>", THEN conjunct2, THEN conjunct1] p0 by simp
  have 3: "engine_main plain sorted_list_of_set ?N = (Exit 3, [])"
    using t[of ?N, THEN conjunct2, THEN conjunct2, THEN conjunct1] f(1) e(1) by simp
  have 4: "\<exists>table gaps summ. engine_main plain sorted_list_of_set ?E
         = (Exit 0, [Phase2Coverage table, Phase2MissingEvidence gaps, Phase2Summary summ])"
    using t[of ?E, THEN conjunct2, THEN conjunct2, THEN conjunct2, THEN conjunct1] f(5) e(3,4,5)
    by auto
  have 5: "\<exists>table. phase0_main plain sorted_list_of_set ?E
         = (Exit 0, [CoverageReport table, BindingMap []])"
    using t[of ?E, THEN conjunct2, THEN conjunct2, THEN conjunct2, THEN conjunct2, THEN conjunct1]
      f(5,6,7) e(6) by auto
  have pp: "questions_exists ?P" "pdf_exists ?P" "pdf ?P = NoPyPDF2" using f(5,6) by simp_all
  have 6: "\<exists>table. phase0_main plain sorted_list_of_set ?P = (Exit 1, [CoverageReport table])"
    using t[of ?P, THEN conjunct2, THEN conjunct2, THEN conjunct2, THEN conjunct2, THEN conjunct1]
      pp e(7) by auto
  have 7: "\<exists>table. phase0_main plain sorted_list_of_set ?N
         = (Exit 0, [CoverageReport table, BindingMap []])"
    using t[of ?N, THEN conjunct2, THEN conjunct2, THEN conjunct2, THEN conjunct2, THEN conjunct2]
      v f(1,2,3,4) e(2) by simp
  show ?thesis
    by (intro conjI q0 p0 1 2 3 4 5 6 7 e(1) e(2))
qed


end
